theory Spec2Isabelle
  imports Complex_Main
begin

section \<open>Circuit breaker (src/cli/circuitBreaker.ts)\<close>

text \<open>
  The class \<^verbatim>\<open>CircuitBreaker\<close> becomes a record of its fields; every method takes the
  breaker and returns the updated one. \<^verbatim>\<open>Date.now()\<close> is an explicit argument \<open>now\<close>
  (milliseconds, an integer). The counters only ever grow by one or are set to zero, and
  the configured threshold is a count, so they are natural numbers.
\<close>

datatype CircuitState = CLOSED | OPEN | HALF_OPEN

record CircuitBreaker =
  state :: CircuitState
  failureCount :: nat
  lastFailureTime :: int
  successCount :: nat
  threshold :: nat
  resetTimeMs :: int

definition halfOpenSuccessThreshold :: nat where
  "halfOpenSuccessThreshold = 2"

text \<open>The constructor: the field initialisers and the two constructor parameters.\<close>

definition newCircuitBreaker :: "nat \<Rightarrow> int \<Rightarrow> CircuitBreaker" where
  "newCircuitBreaker thr rst =
     \<lparr>state = CLOSED, failureCount = 0, lastFailureTime = 0, successCount = 0,
      threshold = thr, resetTimeMs = rst\<rparr>"

definition canExecute :: "int \<Rightarrow> CircuitBreaker \<Rightarrow> bool \<times> CircuitBreaker" where
  "canExecute now b =
     (if state b = CLOSED then (True, b)
      else if state b = OPEN then
        (if now - lastFailureTime b \<ge> resetTimeMs b
         then (True, b\<lparr>state := HALF_OPEN, successCount := 0\<rparr>)
         else (False, b))
      else (True, b))"

definition reset :: "CircuitBreaker \<Rightarrow> CircuitBreaker" where
  "reset b = b\<lparr>state := CLOSED, failureCount := 0, successCount := 0, lastFailureTime := 0\<rparr>"

definition recordSuccess :: "CircuitBreaker \<Rightarrow> CircuitBreaker" where
  "recordSuccess b =
     (if state b = HALF_OPEN then
        (let b1 = b\<lparr>successCount := successCount b + 1\<rparr>
         in if successCount b1 \<ge> halfOpenSuccessThreshold then reset b1 else b1)
      else if state b = CLOSED then b\<lparr>failureCount := 0\<rparr>
      else b)"

definition recordFailure :: "int \<Rightarrow> CircuitBreaker \<Rightarrow> CircuitBreaker" where
  "recordFailure now b =
     (let b1 = b\<lparr>failureCount := failureCount b + 1, lastFailureTime := now\<rparr>
      in if state b1 = HALF_OPEN then b1\<lparr>state := OPEN\<rparr>
         else if failureCount b1 \<ge> threshold b1 then b1\<lparr>state := OPEN\<rparr>
         else b1)"

text \<open>\<^verbatim>\<open>getStats()\<close> returns the four mutable fields: state, failureCount, successCount, lastFailureTime.\<close>

definition getStats :: "CircuitBreaker \<Rightarrow> CircuitState \<times> nat \<times> nat \<times> int" where
  "getStats b = (state b, failureCount b, successCount b, lastFailureTime b)"

section \<open>Concurrency limiter (src/cli/concurrencyLimiter.ts)\<close>

text \<open>
  A value of the type \<^verbatim>\<open>number\<close>. Nothing computes with the timeout in this repository:
  it is handed to \<^verbatim>\<open>execFile\<close> and printed in one message.
\<close>

datatype number = Finite rat | NaN | PosInfinity | NegInfinity

record CLICommandConfig =
  command :: string
  args :: "string list"
  timeout :: "number option"
  cwd :: "string option"
  dedupe :: "bool option"

text \<open>\<^verbatim>\<open>Array.prototype.join\<close> on an array of strings.\<close>

fun join :: "string \<Rightarrow> string list \<Rightarrow> string" where
  "join sep [] = []"
| "join sep [x] = x"
| "join sep (x # y # ys) = x @ sep @ join sep (y # ys)"

definition getDedupeKey :: "CLICommandConfig \<Rightarrow> string" where
  "getDedupeKey cfg = command cfg @ '':'' @ join '':'' (args cfg)"

text \<open>\<^verbatim>\<open>config.dedupe !== false\<close>: true when the field is absent or \<^verbatim>\<open>true\<close>.\<close>

definition dedupeEnabled :: "CLICommandConfig \<Rightarrow> bool" where
  "dedupeEnabled cfg = (dedupe cfg \<noteq> Some False)"

text \<open>
  A queued request holds the config and the \<^verbatim>\<open>resolve\<close>/\<^verbatim>\<open>reject\<close> callbacks of the
  promise that \<^verbatim>\<open>execute\<close> created for it. The promise is identified by a number
  \<open>rid\<close>, handed out in the order in which \<^verbatim>\<open>execute\<close> creates the requests.

  Two promises belong to a request \<open>i\<close>: the caller's promise (\<open>Caller i\<close>, the
  \<^verbatim>\<open>new Promise\<close> of \<^verbatim>\<open>execute\<close>) and the chain
  \<^verbatim>\<open>executor(cfg).then(..).catch(..).finally(..)\<close> built in \<^verbatim>\<open>processQueue\<close>
  (\<open>Chain i\<close>), which is what the \<^verbatim>\<open>inFlight\<close> map stores and what a deduplicated caller
  is handed.
\<close>

record QueuedRequest =
  config :: CLICommandConfig
  rid :: nat

datatype promise = Caller nat | Chain nat

datatype 'r outcome = Resolved 'r | Rejected string

text \<open>
  The limiter's own fields are \<open>queue\<close>, \<open>inFlight\<close>, \<open>activeCount\<close> and
  \<open>maxConcurrency\<close>. The remaining fields record what the limiter does to its
  environment: \<open>invocations\<close> is the log of executor calls in the order they were made,
  \<open>executing\<close> the executor calls whose promise has not settled yet, \<open>finishing\<close> the
  requests whose executor promise has settled (with the outcome) but whose \<^verbatim>\<open>finally\<close>
  callback has not run yet, \<open>settled\<close> the outcome of every promise that has settled,
  \<open>nextId\<close> the next request number.
\<close>

record 'r ConcurrencyLimiter =
  queue :: "QueuedRequest list"
  inFlight :: "string \<rightharpoonup> nat"
  activeCount :: int
  maxConcurrency :: nat
  invocations :: "QueuedRequest list"
  executing :: "QueuedRequest list"
  finishing :: "(QueuedRequest \<times> 'r outcome) list"
  settled :: "promise \<rightharpoonup> 'r outcome"
  nextId :: nat

definition newConcurrencyLimiter :: "nat \<Rightarrow> 'r ConcurrencyLimiter" where
  "newConcurrencyLimiter m =
     \<lparr>queue = [], inFlight = Map.empty, activeCount = 0, maxConcurrency = m,
      invocations = [], executing = [], finishing = [], settled = Map.empty, nextId = 0\<rparr>"

text \<open>
  One iteration of the loop body of \<^verbatim>\<open>processQueue\<close> for the request just shifted off
  the queue: count it active, call the executor, and register the chain promise under the
  dedupe key unless \<^verbatim>\<open>dedupe\<close> is \<^verbatim>\<open>false\<close>.
\<close>

definition startRequest :: "QueuedRequest \<Rightarrow> 'r ConcurrencyLimiter \<Rightarrow> 'r ConcurrencyLimiter" where
  "startRequest request s =
     (let key = getDedupeKey (config request);
          s1 = s\<lparr>activeCount := activeCount s + 1,
                 invocations := invocations s @ [request],
                 executing := executing s @ [request]\<rparr>
      in if dedupeEnabled (config request)
         then s1\<lparr>inFlight := (inFlight s1)(key \<mapsto> rid request)\<rparr>
         else s1)"

function processQueue :: "'r ConcurrencyLimiter \<Rightarrow> 'r ConcurrencyLimiter" where
  "processQueue s =
     (case queue s of
        [] \<Rightarrow> s
      | request # rest \<Rightarrow>
          if activeCount s < int (maxConcurrency s)
          then processQueue (startRequest request (s\<lparr>queue := rest\<rparr>))
          else s)"
  by pat_completeness auto
termination
  by (relation "measure (\<lambda>s. length (queue s))") (auto simp: startRequest_def Let_def)

declare processQueue.simps [simp del]

text \<open>
  \<^verbatim>\<open>execute\<close>: a deduplicated caller is handed the chain promise found in \<^verbatim>\<open>inFlight\<close>;
  otherwise a new request is pushed (\<open>enqueue\<close>, which also numbers the new promise) and
  the queue is pumped.
\<close>

definition enqueue :: "CLICommandConfig \<Rightarrow> 'r ConcurrencyLimiter \<Rightarrow> 'r ConcurrencyLimiter" where
  "enqueue cfg s =
     s\<lparr>queue := queue s @ [\<lparr>config = cfg, rid = nextId s\<rparr>], nextId := nextId s + 1\<rparr>"

definition execute :: "CLICommandConfig \<Rightarrow> 'r ConcurrencyLimiter \<Rightarrow> promise \<times> 'r ConcurrencyLimiter" where
  "execute cfg s =
     (case (if dedupeEnabled cfg then inFlight s (getDedupeKey cfg) else None) of
        Some existing \<Rightarrow> (Chain existing, s)
      | None \<Rightarrow> (Caller (nextId s), processQueue (enqueue cfg s)))"

text \<open>
  The executor's promise for request \<open>i\<close> settles with outcome \<open>out\<close>: the \<^verbatim>\<open>then\<close>
  callback (or the \<^verbatim>\<open>catch\<close> callback) passes the outcome to the caller's promise. The
  limiter's own state is untouched until the \<^verbatim>\<open>finally\<close> callback runs, a few microtasks
  later; the caller's continuation and any other event may run in between. A promise
  settles once: for a request that is not executing nothing happens.
\<close>

definition settle :: "nat \<Rightarrow> 'r outcome \<Rightarrow> 'r ConcurrencyLimiter \<Rightarrow> 'r ConcurrencyLimiter" where
  "settle i out s =
     (case find (\<lambda>r. rid r = i) (executing s) of
        None \<Rightarrow> s
      | Some request \<Rightarrow>
          s\<lparr>settled := (settled s)(Caller i \<mapsto> out),
            executing := remove1 request (executing s),
            finishing := finishing s @ [(request, out)]\<rparr>)"

text \<open>
  The \<^verbatim>\<open>finally\<close> callback of request \<open>i\<close>: it decrements \<open>activeCount\<close>, deletes the
  dedupe key and pumps the queue; the chain promise then settles with the executor's
  outcome.
\<close>

definition finallyHandler :: "nat \<Rightarrow> 'r ConcurrencyLimiter \<Rightarrow> 'r ConcurrencyLimiter" where
  "finallyHandler i s =
     (case find (\<lambda>f. rid (fst f) = i) (finishing s) of
        None \<Rightarrow> s
      | Some f \<Rightarrow>
          processQueue
            (s\<lparr>settled := (settled s)(Chain i \<mapsto> snd f),
               finishing := remove1 f (finishing s),
               activeCount := activeCount s - 1,
               inFlight := (inFlight s)(getDedupeKey (config (fst f)) := None)\<rparr>))"

fun rejectAll :: "QueuedRequest list \<Rightarrow> (promise \<rightharpoonup> 'r outcome) \<Rightarrow> (promise \<rightharpoonup> 'r outcome)" where
  "rejectAll [] m = m"
| "rejectAll (request # rest) m = rejectAll rest (m(Caller (rid request) \<mapsto> Rejected ''Queue cleared''))"

definition clear :: "'r ConcurrencyLimiter \<Rightarrow> 'r ConcurrencyLimiter" where
  "clear s = s\<lparr>settled := rejectAll (queue s) (settled s), queue := [], inFlight := Map.empty\<rparr>"

text \<open>
  The events of the single-threaded event loop that reach a limiter. The executor is a
  black box: a call returns a promise, and the settlement of that promise (\<open>Settle\<close>) is
  an event of its own, as is the later run of the \<^verbatim>\<open>finally\<close> callback (\<open>Finally\<close>).
\<close>

datatype 'r event = Execute CLICommandConfig | Settle nat "'r outcome" | Finally nat | Clear

fun step :: "'r event \<Rightarrow> 'r ConcurrencyLimiter \<Rightarrow> 'r ConcurrencyLimiter" where
  "step (Execute cfg) s = snd (execute cfg s)"
| "step (Settle i out) s = settle i out s"
| "step (Finally i) s = finallyHandler i s"
| "step Clear s = clear s"

definition run :: "'r event list \<Rightarrow> 'r ConcurrencyLimiter \<Rightarrow> 'r ConcurrencyLimiter" where
  "run evs s = fold step evs s"

text \<open>
  An event disturbs the \<^verbatim>\<open>inFlight\<close> entry of a key when it is \<^verbatim>\<open>clear()\<close> or the
  \<^verbatim>\<open>finally\<close> callback of a request with that key. A history is undisturbed for a key when
  none of its events disturbs the key's entry.
\<close>

fun disturbs :: "string \<Rightarrow> 'r event \<Rightarrow> 'r ConcurrencyLimiter \<Rightarrow> bool" where
  "disturbs k Clear s = True"
| "disturbs k (Finally i) s =
     (case find (\<lambda>f. rid (fst f) = i) (finishing s) of
        None \<Rightarrow> False
      | Some f \<Rightarrow> getDedupeKey (config (fst f)) = k)"
| "disturbs k (Execute cfg) s = False"
| "disturbs k (Settle i out) s = False"

fun undisturbed :: "string \<Rightarrow> 'r event list \<Rightarrow> 'r ConcurrencyLimiter \<Rightarrow> bool" where
  "undisturbed k [] s = True"
| "undisturbed k (e # evs) s = (\<not> disturbs k e s \<and> undisturbed k evs (step e s))"

text \<open>The helper of the limiter's tests that builds a config.\<close>

definition makeConfig :: "string \<Rightarrow> string list \<Rightarrow> bool option \<Rightarrow> CLICommandConfig" where
  "makeConfig c a d = \<lparr>command = c, args = a, timeout = None, cwd = None, dedupe = d\<rparr>"

section \<open>Stale-while-revalidate cache (swrCache.ts)\<close>

record 'a CacheEntry =
  data :: 'a
  fetchedAt :: int
  ttl :: int

text \<open>
  A call of the \<^verbatim>\<open>fetcher\<close> whose promise is pending: its number, the key and the
  \<^verbatim>\<open>ttlMs\<close> of the \<^verbatim>\<open>get\<close> that made it, and whether it is a background revalidation
  (the stale branch) or the awaited fetch of a miss.
\<close>

record Fetch =
  fid :: nat
  fkey :: string
  fttl :: int
  background :: bool

text \<open>
  The class has the two maps \<open>cache\<close> and \<open>pendingRevalidations\<close> (the stored promise is
  identified by the number of its fetch). \<open>running\<close> holds the fetcher calls that have not
  settled, \<open>fetchLog\<close> every fetcher call made, in order.
\<close>

record 'a SWRCache =
  cache :: "string \<rightharpoonup> 'a CacheEntry"
  pendingRevalidations :: "string \<rightharpoonup> nat"
  running :: "Fetch list"
  fetchLog :: "Fetch list"
  nextFetch :: nat

definition newSWRCache :: "'a SWRCache" where
  "newSWRCache =
     \<lparr>cache = Map.empty, pendingRevalidations = Map.empty, running = [], fetchLog = [],
      nextFetch = 0\<rparr>"

text \<open>Calling \<^verbatim>\<open>fetcher()\<close>.\<close>

definition callFetcher :: "string \<Rightarrow> int \<Rightarrow> bool \<Rightarrow> 'a SWRCache \<Rightarrow> 'a SWRCache" where
  "callFetcher key ttlMs bg s =
     (let f = \<lparr>fid = nextFetch s, fkey = key, fttl = ttlMs, background = bg\<rparr>
      in s\<lparr>running := running s @ [f], fetchLog := fetchLog s @ [f],
           nextFetch := nextFetch s + 1\<rparr>)"

text \<open>
  \<^verbatim>\<open>get\<close> either has its value at once (\<open>Value\<close>) or awaits the fetch it has just started
  (\<open>Awaits\<close>). \<open>now\<close> is \<^verbatim>\<open>Date.now()\<close>.
\<close>

datatype 'a getResult = Value 'a | Awaits nat

definition get :: "string \<Rightarrow> int \<Rightarrow> int \<Rightarrow> 'a SWRCache \<Rightarrow> 'a getResult \<times> 'a SWRCache" where
  "get key ttlMs now s =
     (case cache s key of
        Some entry \<Rightarrow>
          if now - fetchedAt entry < ttl entry then (Value (data entry), s)
          else if pendingRevalidations s key = None
          then (Value (data entry),
                (callFetcher key ttlMs True s)
                  \<lparr>pendingRevalidations := (pendingRevalidations s)(key \<mapsto> nextFetch s)\<rparr>)
          else (Value (data entry), s)
      | None \<Rightarrow> (Awaits (nextFetch s), callFetcher key ttlMs False s))"

text \<open>
  The fetcher's promise number \<open>i\<close> resolves with \<open>v\<close> at time \<open>now\<close>: the entry is written
  (by the \<^verbatim>\<open>then\<close> callback of a revalidation, or after the \<^verbatim>\<open>await\<close> of a miss), and the
  \<^verbatim>\<open>finally\<close> callback of a revalidation deletes the key from \<open>pendingRevalidations\<close>.
\<close>

definition fetchResolved :: "nat \<Rightarrow> 'a \<Rightarrow> int \<Rightarrow> 'a SWRCache \<Rightarrow> 'a SWRCache" where
  "fetchResolved i v now s =
     (case find (\<lambda>f. fid f = i) (running s) of
        None \<Rightarrow> s
      | Some f \<Rightarrow>
          (let s1 = s\<lparr>running := remove1 f (running s),
                      cache := (cache s)(fkey f \<mapsto> \<lparr>data = v, fetchedAt = now, ttl = fttl f\<rparr>)\<rparr>
           in if background f
              then s1\<lparr>pendingRevalidations := (pendingRevalidations s1)(fkey f := None)\<rparr>
              else s1))"

text \<open>
  The fetcher's promise rejects: nothing is cached; a revalidation still runs its
  \<^verbatim>\<open>finally\<close> callback.
\<close>

definition fetchRejected :: "nat \<Rightarrow> 'a SWRCache \<Rightarrow> 'a SWRCache" where
  "fetchRejected i s =
     (case find (\<lambda>f. fid f = i) (running s) of
        None \<Rightarrow> s
      | Some f \<Rightarrow>
          (let s1 = s\<lparr>running := remove1 f (running s)\<rparr>
           in if background f
              then s1\<lparr>pendingRevalidations := (pendingRevalidations s1)(fkey f := None)\<rparr>
              else s1))"

definition invalidate :: "string \<Rightarrow> 'a SWRCache \<Rightarrow> 'a SWRCache" where
  "invalidate key s = s\<lparr>cache := (cache s)(key := None)\<rparr>"

text \<open>\<^verbatim>\<open>SWRCache.clear\<close> (the limiter has a method of the same name).\<close>

definition clearCache :: "'a SWRCache \<Rightarrow> 'a SWRCache" where
  "clearCache s = s\<lparr>cache := Map.empty, pendingRevalidations := Map.empty\<rparr>"

datatype 'a cacheEvent =
  Get string int int
| FetchResolved nat 'a int
| FetchRejected nat
| Invalidate string
| ClearCache

fun cacheStep :: "'a cacheEvent \<Rightarrow> 'a SWRCache \<Rightarrow> 'a SWRCache" where
  "cacheStep (Get key ttlMs now) s = snd (get key ttlMs now s)"
| "cacheStep (FetchResolved i v now) s = fetchResolved i v now s"
| "cacheStep (FetchRejected i) s = fetchRejected i s"
| "cacheStep (Invalidate key) s = invalidate key s"
| "cacheStep ClearCache s = clearCache s"

definition runCache :: "'a cacheEvent list \<Rightarrow> 'a SWRCache \<Rightarrow> 'a SWRCache" where
  "runCache evs s = fold cacheStep evs s"

text \<open>The number of background revalidations for a key that are in flight.\<close>

definition revalidating :: "string \<Rightarrow> 'a SWRCache \<Rightarrow> nat" where
  "revalidating key s = length (filter (\<lambda>f. background f \<and> fkey f = key) (running s))"

text \<open>
  A history in which \<^verbatim>\<open>clear()\<close> is only called while no background revalidation is in
  flight.
\<close>

fun quietClears :: "'a cacheEvent list \<Rightarrow> 'a SWRCache \<Rightarrow> bool" where
  "quietClears [] s = True"
| "quietClears (e # evs) s =
     ((e \<noteq> ClearCache \<or> filter background (running s) = []) \<and>
      quietClears evs (cacheStep e s))"

text \<open>Reads of one key made one after the other, each with its own \<^verbatim>\<open>ttlMs\<close> and time.\<close>

definition staleReads :: "string \<Rightarrow> (int \<times> int) list \<Rightarrow> 'a cacheEvent list" where
  "staleReads key reads = map (\<lambda>c. Get key (fst c) (snd c)) reads"

section \<open>Process supervisor (processSupervisor.ts)\<close>

text \<open>
  The supervisor relies on three things that are not code of this repository; they are
  the fields of a parameter \<open>pf\<close> of the model, so that every theorem holds whatever they
  do.

  \<^item> \<^verbatim>\<open>JSON.parse\<close>: \<open>jsonParse\<close>, with \<open>None\<close> for a throw. The payload of a successful
    result is \<^verbatim>\<open>JSON.parse(stdout)\<close>, or \<^verbatim>\<open>stdout\<close> itself when parsing throws.
  \<^item> The synchronous part of \<^verbatim>\<open>execFile\<close>: it validates its arguments and throws
    (for an argument with a NUL byte, or a timeout that is not a non-negative integer)
    before any process exists. \<open>execFileThrows\<close> gives the error, or \<open>None\<close> when the call
    returns a child process; it is given the config, the effective timeout, and the
    number and the time of the call, so that it may answer every call in its own way.
  \<^item> The conversion of a number to a string in a template literal: \<open>numberToString\<close>.
\<close>

record 'j platform =
  jsonParse :: "string \<Rightarrow> 'j option"
  execFileThrows :: "CLICommandConfig \<Rightarrow> number \<Rightarrow> nat \<Rightarrow> int \<Rightarrow> string option"
  numberToString :: "number \<Rightarrow> string"

datatype 'j payload = Json 'j | Text string

record 'j CLIResult =
  success :: bool
  resultData :: "'j payload option"
  error :: "string option"
  exitCode :: int
  duration :: int
  resultCommand :: string

record ProcessSupervisorConfig =
  defaultTimeout :: number
  configMaxConcurrency :: nat
  circuitBreakerThreshold :: nat
  circuitBreakerResetTime :: int



text \<open>
  What the callbacks of one \<^verbatim>\<open>executeCommand\<close> call close over: \<^verbatim>\<open>startTime\<close>, the effective
  \<^verbatim>\<open>timeout\<close> and the formatted \<^verbatim>\<open>command\<close>.
\<close>

record Invocation =
  startTime :: int
  effectiveTimeout :: number
  commandText :: string

text \<open>
  The fields of the class. A process is identified by the number of the limiter request
  it runs for (the source draws a fresh \<^verbatim>\<open>processId\<close> per call). \<open>closures\<close> keeps the locals
  of every \<^verbatim>\<open>executeCommand\<close> call whose callbacks were registered. \<open>thrown\<close> keeps the
  error of every \<^verbatim>\<open>executeCommand\<close> call in which \<^verbatim>\<open>execFile\<close> threw: the call runs inside
  \<^verbatim>\<open>new Promise((resolve) => ...)\<close>, so the throw rejects the promise that the executor
  returns.
\<close>

record 'j ProcessSupervisor =
  supervisorConfig :: ProcessSupervisorConfig
  limiter :: "'j CLIResult ConcurrencyLimiter"
  circuitBreaker :: CircuitBreaker
  activeProcesses :: "nat list"
  closures :: "nat \<rightharpoonup> Invocation"
  thrown :: "nat \<rightharpoonup> string"
  totalSpawned :: nat
  destroyed :: bool


definition formatCommand :: "CLICommandConfig \<Rightarrow> string" where
  "formatCommand cfg = command cfg @ '' '' @ join '' '' (args cfg)"

definition failResult :: "string \<Rightarrow> CLICommandConfig \<Rightarrow> 'j CLIResult" where
  "failResult err cfg =
     \<lparr>success = False, resultData = None, error = Some err, exitCode = - 1, duration = 0,
      resultCommand = formatCommand cfg\<rparr>"

text \<open>
  The synchronous part of \<^verbatim>\<open>executeCommand\<close> for request \<open>i\<close>, the body of the promise
  executor: the call is counted, then \<^verbatim>\<open>execFile\<close> either throws, which rejects the promise
  and leaves no process and no callback behind, or returns the child, which is tracked
  with both callbacks registered.
\<close>

definition executeCommand :: "'j platform \<Rightarrow> CLICommandConfig \<Rightarrow> nat \<Rightarrow> int \<Rightarrow> 'j ProcessSupervisor \<Rightarrow> 'j ProcessSupervisor" where
  "executeCommand pf cfg i now sv =
     (let t = (case timeout cfg of Some t \<Rightarrow> t | None \<Rightarrow> defaultTimeout (supervisorConfig sv));
          sv1 = sv\<lparr>totalSpawned := totalSpawned sv + 1\<rparr>
      in case execFileThrows pf cfg t i now of
           Some e \<Rightarrow> sv1\<lparr>thrown := (thrown sv1)(i \<mapsto> e)\<rparr>
         | None \<Rightarrow>
             sv1\<lparr>activeProcesses := activeProcesses sv1 @ [i],
                 closures := (closures sv1)(i \<mapsto>
                   \<lparr>startTime = now, effectiveTimeout = t, commandText = formatCommand cfg\<rparr>)\<rparr>)"

text \<open>
  The limiter calls the executor \<^verbatim>\<open>(cfg) => this.executeCommand(cfg)\<close> for every request it
  starts. The calls made during one operation of the limiter are the entries that the
  operation added to the limiter's invocation log.
\<close>

definition spawnStarted :: "'j platform \<Rightarrow> 'j CLIResult ConcurrencyLimiter \<Rightarrow> int \<Rightarrow> 'j ProcessSupervisor \<Rightarrow> 'j ProcessSupervisor" where
  "spawnStarted pf before now sv =
     fold (\<lambda>r. executeCommand pf (config r) (rid r) now)
       (drop (length (invocations before)) (invocations (limiter sv))) sv"

text \<open>The em dash of the source's message, in UTF-8.\<close>

definition emDash :: string where
  "emDash = [CHR 0xE2, CHR 0x80, CHR 0x94]"

text \<open>
  \<^verbatim>\<open>execute\<close> of the supervisor returns an envelope at once (\<open>Returned\<close>) or the promise that
  the limiter hands out (\<open>Pending\<close>).
\<close>

datatype 'j executeResult = Returned "'j CLIResult" | Pending promise

definition supervisorExecute :: "'j platform \<Rightarrow> CLICommandConfig \<Rightarrow> int \<Rightarrow> 'j ProcessSupervisor \<Rightarrow> 'j executeResult \<times> 'j ProcessSupervisor" where
  "supervisorExecute pf commandConfig now sv =
     (if destroyed sv
      then (Returned (failResult ''Process supervisor has been destroyed'' commandConfig), sv)
      else
        (let (ok, breaker) = canExecute now (circuitBreaker sv);
             sv1 = sv\<lparr>circuitBreaker := breaker\<rparr>
         in if \<not> ok
            then (Returned (failResult
                    (''Circuit breaker is open '' @ emDash @ '' CLI is unavailable'') commandConfig),
                  sv1)
            else
              (let (p, l) = execute commandConfig (limiter sv1)
               in (Pending p, spawnStarted pf (limiter sv1) now (sv1\<lparr>limiter := l\<rparr>)))))"

text \<open>
  \<^verbatim>\<open>resolve(envelope)\<close> in a callback of request \<open>i\<close>: the executor's promise fulfils (a
  promise that has settled stays as it is), and the limiter's \<^verbatim>\<open>then\<close> callback passes the
  envelope to the caller.
\<close>

definition resolveWith :: "nat \<Rightarrow> 'j CLIResult \<Rightarrow> 'j ProcessSupervisor \<Rightarrow> 'j ProcessSupervisor" where
  "resolveWith i envelope sv = sv\<lparr>limiter := settle i (Resolved envelope) (limiter sv)\<rparr>"

text \<open>
  The executor's promise of request \<open>i\<close> was rejected by a throw of \<^verbatim>\<open>execFile\<close>: the
  limiter's \<^verbatim>\<open>catch\<close> callback passes the error to the caller.
\<close>

definition rejectThrown :: "nat \<Rightarrow> 'j ProcessSupervisor \<Rightarrow> 'j ProcessSupervisor" where
  "rejectThrown i sv =
     (case thrown sv i of
        None \<Rightarrow> sv
      | Some e \<Rightarrow> sv\<lparr>limiter := settle i (Rejected e) (limiter sv)\<rparr>)"

text \<open>
  The limiter's \<^verbatim>\<open>finally\<close> callback of request \<open>i\<close>, run at time \<open>now\<close>: the requests that
  it starts are spawned.
\<close>

definition runFinally :: "'j platform \<Rightarrow> nat \<Rightarrow> int \<Rightarrow> 'j ProcessSupervisor \<Rightarrow> 'j ProcessSupervisor" where
  "runFinally pf i now sv =
     spawnStarted pf (limiter sv) now (sv\<lparr>limiter := finallyHandler i (limiter sv)\<rparr>)"

text \<open>The error object that \<^verbatim>\<open>execFile\<close> passes to its callback.\<close>

record ExecError =
  killed :: bool
  message :: string
  code :: "int option"

text \<open>\<^verbatim>\<open>String.prototype.includes\<close> (\<open>includes\<close> is a keyword of Isabelle).\<close>

fun includesStr :: "string \<Rightarrow> string \<Rightarrow> bool" where
  "includesStr [] sub = (sub = [])"
| "includesStr (c # cs) sub = (take (length sub) (c # cs) = sub \<or> includesStr cs sub)"

text \<open>The callback of \<^verbatim>\<open>execFile\<close> for request \<open>i\<close>, called at time \<open>now\<close>.\<close>

definition execFileCallback :: "'j platform \<Rightarrow> nat \<Rightarrow> ExecError option \<Rightarrow> string \<Rightarrow> string \<Rightarrow> int \<Rightarrow> 'j ProcessSupervisor \<Rightarrow> 'j ProcessSupervisor" where
  "execFileCallback pf i err stdout stderr now sv =
     (case closures sv i of
        None \<Rightarrow> sv
      | Some c \<Rightarrow>
          (let sv1 = sv\<lparr>activeProcesses := removeAll i (activeProcesses sv)\<rparr>;
               dur = now - startTime c
           in case err of
                Some e \<Rightarrow>
                  (let sv2 = sv1\<lparr>circuitBreaker := recordFailure now (circuitBreaker sv1)\<rparr>;
                       isTimeout = (killed e \<or> includesStr (message e) ''ETIMEDOUT'');
                       errorMessage =
                         (if killed e then ''Process was killed''
                          else if isTimeout
                          then ''Command timed out after '' @ numberToString pf (effectiveTimeout c) @ ''ms''
                          else if stderr \<noteq> [] then stderr else message e)
                   in resolveWith i
                        \<lparr>success = False, resultData = None, error = Some errorMessage,
                         exitCode = (case code e of Some n \<Rightarrow> n | None \<Rightarrow> - 1),
                         duration = dur, resultCommand = commandText c\<rparr> sv2)
              | None \<Rightarrow>
                  (let sv2 = sv1\<lparr>circuitBreaker := recordSuccess (circuitBreaker sv1)\<rparr>;
                       d = (case jsonParse pf stdout of Some v \<Rightarrow> Json v | None \<Rightarrow> Text stdout)
                   in resolveWith i
                        \<lparr>success = True, resultData = Some d, error = None, exitCode = 0,
                         duration = dur, resultCommand = commandText c\<rparr> sv2)))"

text \<open>The handler of the child's \<^verbatim>\<open>error\<close> event.\<close>

definition childError :: "nat \<Rightarrow> string \<Rightarrow> int \<Rightarrow> 'j ProcessSupervisor \<Rightarrow> 'j ProcessSupervisor" where
  "childError i msg now sv =
     (case closures sv i of
        None \<Rightarrow> sv
      | Some c \<Rightarrow>
          (let sv1 = sv\<lparr>activeProcesses := removeAll i (activeProcesses sv)\<rparr>;
               sv2 = sv1\<lparr>circuitBreaker := recordFailure now (circuitBreaker sv1)\<rparr>
           in resolveWith i
                \<lparr>success = False, resultData = None,
                 error = Some (''Failed to spawn process: '' @ msg), exitCode = - 1,
                 duration = now - startTime c, resultCommand = commandText c\<rparr> sv2))"

definition resetCircuitBreaker :: "'j ProcessSupervisor \<Rightarrow> 'j ProcessSupervisor" where
  "resetCircuitBreaker sv = sv\<lparr>circuitBreaker := reset (circuitBreaker sv)\<rparr>"

text \<open>
  \<^verbatim>\<open>destroy\<close>: the latch is set, every tracked process is killed and forgotten (its callback
  arrives later, as an event), and the limiter is cleared.
\<close>

definition destroy :: "'j ProcessSupervisor \<Rightarrow> 'j ProcessSupervisor" where
  "destroy sv = sv\<lparr>destroyed := True, activeProcesses := [], limiter := clear (limiter sv)\<rparr>"

text \<open>
  The events of the event loop that reach a supervisor: calls of its methods, the two
  callbacks of a child process, and the limiter's \<^verbatim>\<open>catch\<close> and \<^verbatim>\<open>finally\<close> callbacks.
\<close>

datatype supervisorEvent =
  Call CLICommandConfig int
| ExecFileDone nat "ExecError option" string string int
| ChildError nat string int
| RejectThrown nat
| RunFinally nat int
| ResetBreaker
| Destroy

fun supervisorStep :: "'j platform \<Rightarrow> supervisorEvent \<Rightarrow> 'j ProcessSupervisor \<Rightarrow> 'j ProcessSupervisor" where
  "supervisorStep pf (Call cfg now) sv = snd (supervisorExecute pf cfg now sv)"
| "supervisorStep pf (ExecFileDone i err stdout stderr now) sv =
     execFileCallback pf i err stdout stderr now sv"
| "supervisorStep pf (ChildError i msg now) sv = childError i msg now sv"
| "supervisorStep pf (RejectThrown i) sv = rejectThrown i sv"
| "supervisorStep pf (RunFinally i now) sv = runFinally pf i now sv"
| "supervisorStep pf ResetBreaker sv = resetCircuitBreaker sv"
| "supervisorStep pf Destroy sv = destroy sv"

definition runSupervisor :: "'j platform \<Rightarrow> supervisorEvent list \<Rightarrow> 'j ProcessSupervisor \<Rightarrow> 'j ProcessSupervisor" where
  "runSupervisor pf evs sv = fold (supervisorStep pf) evs sv"

text \<open>Calls of \<^verbatim>\<open>execute\<close>, each with its config and time.\<close>

definition calls :: "(CLICommandConfig \<times> int) list \<Rightarrow> supervisorEvent list" where
  "calls cs = map (\<lambda>c. Call (fst c) (snd c)) cs"






section \<open>Properties of the circuit breaker\<close>

lemma recordFailure_fields:
  "threshold (recordFailure now b) = threshold b"
  "resetTimeMs (recordFailure now b) = resetTimeMs b"
  "failureCount (recordFailure now b) = failureCount b + 1"
  "lastFailureTime (recordFailure now b) = now"
  "successCount (recordFailure now b) = successCount b"
  by (simp_all add: recordFailure_def Let_def)

lemma recordFailure_state:
  "state (recordFailure now b) =
     (if state b = CLOSED \<and> failureCount b + 1 < threshold b then CLOSED else OPEN)"
  by (cases "state b") (simp_all add: recordFailure_def Let_def)

lemma fold_recordFailure_open:
  "state b = OPEN \<Longrightarrow> state (fold recordFailure ts b) = OPEN"
  by (induction ts arbitrary: b) (simp_all add: recordFailure_state)

lemma fold_recordFailure_closed:
  "state b = CLOSED \<Longrightarrow>
   state (fold recordFailure ts b) =
     (if ts \<noteq> [] \<and> threshold b \<le> failureCount b + length ts then OPEN else CLOSED)"
proof (induction ts arbitrary: b)
  case Nil
  then show ?case by simp
next
  case (Cons t ts)
  show ?case
  proof (cases "failureCount b + 1 < threshold b")
    case True
    then have "state (recordFailure t b) = CLOSED"
      using Cons.prems by (simp add: recordFailure_state)
    from Cons.IH [OF this] True show ?thesis
      by (auto simp: recordFailure_fields)
  next
    case False
    then have "state (recordFailure t b) = OPEN"
      by (simp add: recordFailure_state)
    then show ?thesis using False
      by (simp add: fold_recordFailure_open)
  qed
qed

lemma fold_recordFailure_last:
  "ts \<noteq> [] \<Longrightarrow> lastFailureTime (fold recordFailure ts b) = last ts"
  by (induction ts arbitrary: b) (auto simp: recordFailure_fields)

text \<open>
  Claim C3, as amended. For every threshold \<open>N \<ge> 1\<close> and every \<open>resetTimeMs\<close>: starting
  from a CLOSED breaker with no failure counted, fewer than \<open>N\<close> consecutive
  \<^verbatim>\<open>recordFailure()\<close> calls (in particular \<open>N - 1\<close>) leave it CLOSED and exactly \<open>N\<close> make it
  OPEN, with \<open>lastFailureTime\<close> the time of the last failure (every \<^verbatim>\<open>recordFailure()\<close>
  stamps it). While OPEN, \<^verbatim>\<open>canExecute()\<close>
  returns false and changes nothing when the time elapsed since the last failure is below
  \<open>resetTimeMs\<close>, and otherwise returns true and moves the breaker to HALF_OPEN (with
  \<open>successCount\<close> zero) in that same call.
\<close>

theorem breaker_threshold_cooldown:
  assumes "1 \<le> threshold b" and "state b = CLOSED" and "failureCount b = 0"
    and "state opn = OPEN"
  shows "(length ts < threshold b \<longrightarrow> state (fold recordFailure ts b) = CLOSED) \<and>
         (length ts = threshold b \<longrightarrow>
            state (fold recordFailure ts b) = OPEN \<and>
            lastFailureTime (fold recordFailure ts b) = last ts) \<and>
         (now - lastFailureTime opn < resetTimeMs opn \<longrightarrow> canExecute now opn = (False, opn)) \<and>
         (now - lastFailureTime opn \<ge> resetTimeMs opn \<longrightarrow>
            canExecute now opn = (True, opn\<lparr>state := HALF_OPEN, successCount := 0\<rparr>)) \<and>
         lastFailureTime (recordFailure t c) = t"
proof -
  have a: "length ts < threshold b \<longrightarrow> state (fold recordFailure ts b) = CLOSED"
    using assms(2,3) by (simp add: fold_recordFailure_closed)
  have "length ts = threshold b \<longrightarrow> ts \<noteq> []"
    using assms(1) by auto
  then have b: "length ts = threshold b \<longrightarrow>
            state (fold recordFailure ts b) = OPEN \<and>
            lastFailureTime (fold recordFailure ts b) = last ts"
    using assms(2,3) by (simp add: fold_recordFailure_closed fold_recordFailure_last)
  have c: "now - lastFailureTime opn < resetTimeMs opn \<longrightarrow> canExecute now opn = (False, opn)"
    using assms(4) by (simp add: canExecute_def)
  have d: "now - lastFailureTime opn \<ge> resetTimeMs opn \<longrightarrow>
            canExecute now opn = (True, opn\<lparr>state := HALF_OPEN, successCount := 0\<rparr>)"
    using assms(4) by (simp add: canExecute_def)
  have e: "lastFailureTime (recordFailure t c) = t"
    by (simp add: recordFailure_fields)
  from a b c d e show ?thesis by blast
qed

text \<open>Scenario A of the specification: threshold 2, reset time 10000 ms.\<close>

theorem breaker_threshold_cooldown_witness:
  "state (fold recordFailure [0] (newCircuitBreaker 2 10000)) = CLOSED \<and>
   state (fold recordFailure [0, 0] (newCircuitBreaker 2 10000)) = OPEN \<and>
   fst (canExecute 9999 (fold recordFailure [0, 0] (newCircuitBreaker 2 10000))) = False \<and>
   state (snd (canExecute 9999 (fold recordFailure [0, 0] (newCircuitBreaker 2 10000)))) = OPEN \<and>
   fst (canExecute 10000 (fold recordFailure [0, 0] (newCircuitBreaker 2 10000))) = True \<and>
   state (snd (canExecute 10000 (fold recordFailure [0, 0] (newCircuitBreaker 2 10000)))) = HALF_OPEN"
proof -
  let ?b = "newCircuitBreaker 2 10000"
  let ?o = "fold recordFailure [0, 0] ?b"
  have h: "1 \<le> threshold ?b" "state ?b = CLOSED" "failureCount ?b = 0"
    by (simp_all add: newCircuitBreaker_def)
  have o: "state ?o = OPEN"
    by (simp add: newCircuitBreaker_def recordFailure_def Let_def)
  have lt: "lastFailureTime ?o = 0" "resetTimeMs ?o = 10000"
    by (simp_all add: newCircuitBreaker_def recordFailure_def Let_def)
  have n1: "length [0::int] < threshold ?b" and n2: "length [0::int, 0] = threshold ?b"
    by (simp_all add: newCircuitBreaker_def)
  from breaker_threshold_cooldown [OF h o, of "[0]" 9999] n1
  have 1: "state (fold recordFailure [0] ?b) = CLOSED" by blast
  from breaker_threshold_cooldown [OF h o, of "[0, 0]" 9999] n2 lt
  have 2: "state ?o = OPEN" "canExecute 9999 ?o = (False, ?o)" by simp_all
  from breaker_threshold_cooldown [OF h o, of "[0, 0]" 10000] lt
  have 3: "canExecute 10000 ?o = (True, ?o\<lparr>state := HALF_OPEN, successCount := 0\<rparr>)" by simp
  show ?thesis using 1 2 3 by simp
qed

text \<open>
  Claim C3 as stated fails for the threshold 0: the breaker is built CLOSED and admits
  requests, so zero failures do not open it; the first failure does.
\<close>

theorem breaker_threshold_zero_counterexample:
  "state (fold recordFailure [] (newCircuitBreaker 0 10000)) = CLOSED \<and>
   fst (canExecute 0 (fold recordFailure [] (newCircuitBreaker 0 10000))) = True \<and>
   state (fold recordFailure [0] (newCircuitBreaker 0 10000)) = OPEN"
  by (simp add: newCircuitBreaker_def recordFailure_def canExecute_def Let_def)

text \<open>
  Claim C4, as amended. In HALF_OPEN, entered with \<open>successCount = 0\<close>, one
  \<^verbatim>\<open>recordSuccess()\<close> leaves the breaker HALF_OPEN and the second one closes it with
  \<open>failureCount\<close>, \<open>successCount\<close> and \<open>lastFailureTime\<close> all zero (so after one prior success
  a single further success closes it). A single \<^verbatim>\<open>recordFailure()\<close>, whatever the number of
  prior successes, moves the breaker to OPEN, stamps \<open>lastFailureTime\<close> and counts the
  failure. It leaves the stored \<open>successCount\<close> as it is, and \<^verbatim>\<open>getStats()\<close> reports that
  number while the breaker is OPEN. The number has no further effect: while OPEN
  \<^verbatim>\<open>recordSuccess()\<close> does nothing, and when the cool-down has passed \<^verbatim>\<open>canExecute()\<close>
  re-enters HALF_OPEN with \<open>successCount = 0\<close>, so that one success is again not enough to
  close.
\<close>

theorem breaker_half_open_recovery:
  assumes "state b = HALF_OPEN"
  shows "(successCount b = 0 \<longrightarrow>
            state (recordSuccess b) = HALF_OPEN \<and>
            recordSuccess (recordSuccess b) =
              b\<lparr>state := CLOSED, failureCount := 0, successCount := 0, lastFailureTime := 0\<rparr>) \<and>
         (successCount b = 1 \<longrightarrow>
            recordSuccess b =
              b\<lparr>state := CLOSED, failureCount := 0, successCount := 0, lastFailureTime := 0\<rparr>) \<and>
         state (recordFailure now b) = OPEN \<and>
         lastFailureTime (recordFailure now b) = now \<and>
         successCount (recordFailure now b) = successCount b \<and>
         getStats (recordFailure now b) = (OPEN, failureCount b + 1, successCount b, now) \<and>
         recordSuccess (recordFailure now b) = recordFailure now b \<and>
         (resetTimeMs b \<le> now' - now \<longrightarrow>
            fst (canExecute now' (recordFailure now b)) = True \<and>
            state (snd (canExecute now' (recordFailure now b))) = HALF_OPEN \<and>
            successCount (snd (canExecute now' (recordFailure now b))) = 0 \<and>
            state (recordSuccess (snd (canExecute now' (recordFailure now b)))) = HALF_OPEN)"
  using assms
  by (simp add: recordSuccess_def recordFailure_def canExecute_def reset_def Let_def
      halfOpenSuccessThreshold_def getStats_def)

theorem breaker_half_open_recovery_witness:
  "state (snd (canExecute 6000 (recordFailure 1000 (newCircuitBreaker 1 5000)))) = HALF_OPEN \<and>
   state (recordSuccess (snd (canExecute 6000 (recordFailure 1000 (newCircuitBreaker 1 5000)))))
     = HALF_OPEN \<and>
   recordSuccess (recordSuccess (snd (canExecute 6000 (recordFailure 1000 (newCircuitBreaker 1 5000)))))
     = newCircuitBreaker 1 5000 \<and>
   state (recordFailure 7000 (snd (canExecute 6000 (recordFailure 1000 (newCircuitBreaker 1 5000)))))
     = OPEN \<and>
   state (recordFailure 7000
       (recordSuccess (snd (canExecute 6000 (recordFailure 1000 (newCircuitBreaker 1 5000))))))
     = OPEN \<and>
   successCount (snd (canExecute 12000 (recordFailure 7000
       (recordSuccess (snd (canExecute 6000 (recordFailure 1000 (newCircuitBreaker 1 5000))))))))
     = 0 \<and>
   state (recordSuccess (snd (canExecute 12000 (recordFailure 7000
       (recordSuccess (snd (canExecute 6000 (recordFailure 1000 (newCircuitBreaker 1 5000)))))))))
     = HALF_OPEN"
proof -
  let ?h = "snd (canExecute 6000 (recordFailure 1000 (newCircuitBreaker 1 5000)))"
  have h: "?h = \<lparr>state = HALF_OPEN, failureCount = 1, lastFailureTime = 1000, successCount = 0,
      threshold = 1, resetTimeMs = 5000\<rparr>"
    by (simp add: canExecute_def recordFailure_def newCircuitBreaker_def Let_def)
  then have st: "state ?h = HALF_OPEN" and sc: "successCount ?h = 0"
    by simp_all
  from breaker_half_open_recovery [OF st, of 7000 12000] sc
  have 1: "state (recordSuccess ?h) = HALF_OPEN"
    and 2: "recordSuccess (recordSuccess ?h) =
       ?h\<lparr>state := CLOSED, failureCount := 0, successCount := 0, lastFailureTime := 0\<rparr>"
    and 3: "state (recordFailure 7000 ?h) = OPEN"
    by blast+
  from 2 h have 4: "recordSuccess (recordSuccess ?h) = newCircuitBreaker 1 5000"
    by (simp add: newCircuitBreaker_def)
  have r: "resetTimeMs (recordSuccess ?h) \<le> 12000 - 7000"
    using h by (simp add: recordSuccess_def halfOpenSuccessThreshold_def Let_def)
  from breaker_half_open_recovery [OF 1, of 7000 12000] r
  have 5: "state (recordFailure 7000 (recordSuccess ?h)) = OPEN"
    and 6: "successCount (snd (canExecute 12000 (recordFailure 7000 (recordSuccess ?h)))) = 0"
    and 7: "state (recordSuccess (snd (canExecute 12000 (recordFailure 7000 (recordSuccess ?h)))))
       = HALF_OPEN"
    by blast+
  from st 1 4 3 5 6 7 show ?thesis by blast
qed

text \<open>
  Claim C4 as stated fails in its last clause: \<^verbatim>\<open>recordFailure()\<close> does not discard the
  partial success count. A breaker with threshold 1 is opened by a failure at time 1000
  and enters HALF_OPEN at 6000; after one success and a failure at 7000 it is OPEN and
  \<^verbatim>\<open>getStats()\<close> still reports \<open>successCount = 1\<close>.
\<close>

theorem breaker_failure_keeps_successCount_counterexample:
  "state (snd (canExecute 6000 (recordFailure 1000 (newCircuitBreaker 1 5000)))) = HALF_OPEN \<and>
   successCount (recordSuccess (snd (canExecute 6000 (recordFailure 1000 (newCircuitBreaker 1 5000)))))
     = 1 \<and>
   getStats (recordFailure 7000
       (recordSuccess (snd (canExecute 6000 (recordFailure 1000 (newCircuitBreaker 1 5000))))))
     = (OPEN, 2, 1, 7000)"
  by (simp add: canExecute_def recordFailure_def recordSuccess_def newCircuitBreaker_def
      getStats_def halfOpenSuccessThreshold_def Let_def)

section \<open>Properties of the concurrency limiter\<close>

subsection \<open>The pump and the steps of the limiter\<close>

lemma processQueue_rule:
  assumes "P s"
    and stp: "\<And>s request rest. P s \<Longrightarrow> queue s = request # rest \<Longrightarrow>
              activeCount s < int (maxConcurrency s) \<Longrightarrow>
              P (startRequest request (s\<lparr>queue := rest\<rparr>))"
  shows "P (processQueue s)"
  using assms(1)
proof (induction s rule: processQueue.induct)
  case (1 s)
  show ?case
  proof (cases "queue s")
    case Nil
    then show ?thesis using "1.prems" by (subst processQueue.simps) simp
  next
    case (Cons request rest)
    show ?thesis
    proof (cases "activeCount s < int (maxConcurrency s)")
      case True
      have "P (startRequest request (s\<lparr>queue := rest\<rparr>))"
        using stp [OF "1.prems" Cons True] .
      from "1.IH" [OF Cons True this] show ?thesis
        using Cons True by (subst processQueue.simps) simp
    next
      case False
      then show ?thesis using "1.prems" Cons by (subst processQueue.simps) simp
    qed
  qed
qed

lemma startRequest_fields:
  "queue (startRequest r s) = queue s"
  "activeCount (startRequest r s) = activeCount s + 1"
  "maxConcurrency (startRequest r s) = maxConcurrency s"
  "invocations (startRequest r s) = invocations s @ [r]"
  "executing (startRequest r s) = executing s @ [r]"
  "finishing (startRequest r s) = finishing s"
  "settled (startRequest r s) = settled s"
  "nextId (startRequest r s) = nextId s"
  "inFlight (startRequest r s) =
     (if dedupeEnabled (config r) then (inFlight s)(getDedupeKey (config r) \<mapsto> rid r)
      else inFlight s)"
  by (simp_all add: startRequest_def Let_def)

lemma processQueue_maxConcurrency: "maxConcurrency (processQueue s) = maxConcurrency s"
  by (rule processQueue_rule [where P = "\<lambda>t. maxConcurrency t = maxConcurrency s"])
     (simp_all add: startRequest_fields)


lemma processQueue_nextId: "nextId (processQueue s) = nextId s"
  by (rule processQueue_rule [where P = "\<lambda>t. nextId t = nextId s"])
     (simp_all add: startRequest_fields)

text \<open>The pump stops only when the queue is empty or the cap is reached.\<close>

lemma processQueue_saturated:
  "queue (processQueue s) = [] \<or> int (maxConcurrency (processQueue s)) \<le> activeCount (processQueue s)"
proof (induction s rule: processQueue.induct)
  case (1 s)
  show ?case
  proof (cases "queue s")
    case Nil
    then show ?thesis by (subst (1 2 3) processQueue.simps) simp
  next
    case (Cons request rest)
    show ?thesis
    proof (cases "activeCount s < int (maxConcurrency s)")
      case True
      from "1.IH" [OF Cons True] show ?thesis
        using Cons True by (subst (1 2 3) processQueue.simps) simp
    next
      case False
      then show ?thesis using Cons by (subst (1 2 3) processQueue.simps) simp
    qed
  qed
qed

lemma execute_cases:
  obtains (dedup) p where "dedupeEnabled cfg" and "inFlight s (getDedupeKey cfg) = Some p"
      and "execute cfg s = (Chain p, s)"
  | (fresh) "execute cfg s = (Caller (nextId s), processQueue (enqueue cfg s))"
      and "\<not> dedupeEnabled cfg \<or> inFlight s (getDedupeKey cfg) = None"
proof (cases "dedupeEnabled cfg")
  case True
  show ?thesis
  proof (cases "inFlight s (getDedupeKey cfg)")
    case None
    then show ?thesis using True fresh by (simp add: execute_def)
  next
    case (Some p)
    then show ?thesis using True dedup by (simp add: execute_def)
  qed
next
  case False
  then show ?thesis using fresh by (simp add: execute_def)
qed

lemma enqueue_fields:
  "queue (enqueue cfg s) = queue s @ [\<lparr>config = cfg, rid = nextId s\<rparr>]"
  "activeCount (enqueue cfg s) = activeCount s"
  "maxConcurrency (enqueue cfg s) = maxConcurrency s"
  "invocations (enqueue cfg s) = invocations s"
  "executing (enqueue cfg s) = executing s"
  "finishing (enqueue cfg s) = finishing s"
  "settled (enqueue cfg s) = settled s"
  "nextId (enqueue cfg s) = nextId s + 1"
  "inFlight (enqueue cfg s) = inFlight s"
  by (simp_all add: enqueue_def)

lemma find_rid_mem: "find (\<lambda>r. rid r = i) xs = Some r \<Longrightarrow> r \<in> set xs \<and> rid r = i"
  by (auto simp: find_Some_iff)

lemma find_fst_rid_mem:
  "find (\<lambda>f. rid (fst f) = i) xs = Some f \<Longrightarrow> f \<in> set xs \<and> rid (fst f) = i"
  by (auto simp: find_Some_iff)

text \<open>The state changes of the two settlement callbacks, before the pump runs.\<close>

definition settleUpdate :: "nat \<Rightarrow> 'r outcome \<Rightarrow> QueuedRequest \<Rightarrow> 'r ConcurrencyLimiter \<Rightarrow> 'r ConcurrencyLimiter" where
  "settleUpdate i out request s =
     s\<lparr>settled := (settled s)(Caller i \<mapsto> out),
       executing := remove1 request (executing s),
       finishing := finishing s @ [(request, out)]\<rparr>"

definition finallyUpdate :: "nat \<Rightarrow> QueuedRequest \<times> 'r outcome \<Rightarrow> 'r ConcurrencyLimiter \<Rightarrow> 'r ConcurrencyLimiter" where
  "finallyUpdate i f s =
     s\<lparr>settled := (settled s)(Chain i \<mapsto> snd f),
       finishing := remove1 f (finishing s),
       activeCount := activeCount s - 1,
       inFlight := (inFlight s)(getDedupeKey (config (fst f)) := None)\<rparr>"

lemma settleUpdate_fields:
  "queue (settleUpdate i out r s) = queue s"
  "inFlight (settleUpdate i out r s) = inFlight s"
  "activeCount (settleUpdate i out r s) = activeCount s"
  "maxConcurrency (settleUpdate i out r s) = maxConcurrency s"
  "invocations (settleUpdate i out r s) = invocations s"
  "executing (settleUpdate i out r s) = remove1 r (executing s)"
  "finishing (settleUpdate i out r s) = finishing s @ [(r, out)]"
  "settled (settleUpdate i out r s) = (settled s)(Caller i \<mapsto> out)"
  "nextId (settleUpdate i out r s) = nextId s"
  by (simp_all add: settleUpdate_def)

lemma finallyUpdate_fields:
  "queue (finallyUpdate i f s) = queue s"
  "inFlight (finallyUpdate i f s) = (inFlight s)(getDedupeKey (config (fst f)) := None)"
  "activeCount (finallyUpdate i f s) = activeCount s - 1"
  "maxConcurrency (finallyUpdate i f s) = maxConcurrency s"
  "invocations (finallyUpdate i f s) = invocations s"
  "executing (finallyUpdate i f s) = executing s"
  "finishing (finallyUpdate i f s) = remove1 f (finishing s)"
  "settled (finallyUpdate i f s) = (settled s)(Chain i \<mapsto> snd f)"
  "nextId (finallyUpdate i f s) = nextId s"
  by (simp_all add: finallyUpdate_def)

lemma clear_fields:
  "queue (clear s) = []"
  "inFlight (clear s) = Map.empty"
  "activeCount (clear s) = activeCount s"
  "maxConcurrency (clear s) = maxConcurrency s"
  "invocations (clear s) = invocations s"
  "executing (clear s) = executing s"
  "finishing (clear s) = finishing s"
  "settled (clear s) = rejectAll (queue s) (settled s)"
  "nextId (clear s) = nextId s"
  by (simp_all add: clear_def)

lemma settle_cases:
  obtains (idle) "settle i out s = s" and "i \<notin> rid ` set (executing s)"
  | (settles) request where "request \<in> set (executing s)" and "rid request = i"
      and "settle i out s = settleUpdate i out request s"
proof (cases "find (\<lambda>r. rid r = i) (executing s)")
  case None
  then have "i \<notin> rid ` set (executing s)" by (auto simp: find_None_iff)
  with None idle show ?thesis by (simp add: settle_def)
next
  case (Some request)
  from find_rid_mem [OF Some] have "request \<in> set (executing s)" "rid request = i" by blast+
  with Some settles show ?thesis by (simp add: settle_def settleUpdate_def)
qed

lemma finallyHandler_cases:
  obtains (idle) "finallyHandler i s = s" and "i \<notin> rid ` fst ` set (finishing s)"
  | (finishes) f where "f \<in> set (finishing s)" and "rid (fst f) = i"
      and "finallyHandler i s = processQueue (finallyUpdate i f s)"
      and "find (\<lambda>f. rid (fst f) = i) (finishing s) = Some f"
proof (cases "find (\<lambda>f. rid (fst f) = i) (finishing s)")
  case None
  then have "i \<notin> rid ` fst ` set (finishing s)" by (auto simp: find_None_iff)
  with None idle show ?thesis by (simp add: finallyHandler_def)
next
  case (Some f)
  from find_fst_rid_mem [OF Some] have "f \<in> set (finishing s)" "rid (fst f) = i" by blast+
  with Some finishes show ?thesis by (simp add: finallyHandler_def finallyUpdate_def)
qed

text \<open>
  A property of limiter states is an invariant of every history when it is kept by the
  five elementary changes: pushing a request, starting the request at the head of the
  queue, the two settlement callbacks, and \<^verbatim>\<open>clear()\<close>.
\<close>

lemma step_rule:
  assumes "P s"
    and enq: "\<And>s cfg. P s \<Longrightarrow> P (enqueue cfg s)"
    and start: "\<And>s request rest. P s \<Longrightarrow> queue s = request # rest \<Longrightarrow>
              activeCount s < int (maxConcurrency s) \<Longrightarrow>
              P (startRequest request (s\<lparr>queue := rest\<rparr>))"
    and stl: "\<And>s i out request. P s \<Longrightarrow> request \<in> set (executing s) \<Longrightarrow> rid request = i \<Longrightarrow>
              P (settleUpdate i out request s)"
    and fin: "\<And>s i f. P s \<Longrightarrow> f \<in> set (finishing s) \<Longrightarrow> rid (fst f) = i \<Longrightarrow>
              P (finallyUpdate i f s)"
    and clr: "\<And>s. P s \<Longrightarrow> P (clear s)"
  shows "P (step e s)"
proof (cases e)
  case (Execute cfg)
  show ?thesis
  proof (cases cfg s rule: execute_cases)
    case (dedup p)
    with assms(1) Execute show ?thesis by simp
  next
    case fresh
    have "P (processQueue (enqueue cfg s))"
      by (rule processQueue_rule [where P = P, OF enq [OF assms(1)] start])
    with fresh Execute show ?thesis by simp
  qed
next
  case (Settle i out)
  show ?thesis
  proof (cases rule: settle_cases [where i = i and s = s and out = out])
    case idle
    with assms(1) Settle show ?thesis by simp
  next
    case (settles request)
    with stl [OF assms(1) settles(1,2), of out] Settle show ?thesis by simp
  qed
next
  case (Finally i)
  show ?thesis
  proof (cases rule: finallyHandler_cases [where i = i and s = s])
    case idle
    with assms(1) Finally show ?thesis by simp
  next
    case (finishes f)
    have "P (processQueue (finallyUpdate i f s))"
      by (rule processQueue_rule [where P = P, OF fin [OF assms(1) finishes(1,2)] start])
    with finishes Finally show ?thesis by simp
  qed
next
  case Clear
  with clr [OF assms(1)] show ?thesis by simp
qed

lemma run_rule:
  assumes "P s"
    and enq: "\<And>s cfg. P s \<Longrightarrow> P (enqueue cfg s)"
    and start: "\<And>s request rest. P s \<Longrightarrow> queue s = request # rest \<Longrightarrow>
              activeCount s < int (maxConcurrency s) \<Longrightarrow>
              P (startRequest request (s\<lparr>queue := rest\<rparr>))"
    and stl: "\<And>s i out request. P s \<Longrightarrow> request \<in> set (executing s) \<Longrightarrow> rid request = i \<Longrightarrow>
              P (settleUpdate i out request s)"
    and fin: "\<And>s i f. P s \<Longrightarrow> f \<in> set (finishing s) \<Longrightarrow> rid (fst f) = i \<Longrightarrow>
              P (finallyUpdate i f s)"
    and clr: "\<And>s. P s \<Longrightarrow> P (clear s)"
  shows "P (run evs s)"
  unfolding run_def using assms(1)
proof (induction evs arbitrary: s)
  case Nil
  then show ?case by simp
next
  case (Cons e evs)
  have "P (step e s)"
    by (rule step_rule [where P = P, OF Cons.prems enq start stl fin clr])
  from Cons.IH [OF this] show ?case by simp
qed

lemma new_fields:
  "queue (newConcurrencyLimiter m) = []"
  "inFlight (newConcurrencyLimiter m) = Map.empty"
  "activeCount (newConcurrencyLimiter m) = 0"
  "maxConcurrency (newConcurrencyLimiter m) = m"
  "invocations (newConcurrencyLimiter m) = []"
  "executing (newConcurrencyLimiter m) = []"
  "finishing (newConcurrencyLimiter m) = []"
  "settled (newConcurrencyLimiter m) = Map.empty"
  "nextId (newConcurrencyLimiter m) = 0"
  by (simp_all add: newConcurrencyLimiter_def)

subsection \<open>The concurrency bound\<close>

definition counted :: "'r ConcurrencyLimiter \<Rightarrow> bool" where
  "counted s =
     (activeCount s = int (length (executing s) + length (finishing s)) \<and>
      activeCount s \<le> int (maxConcurrency s))"

lemma length_remove1_mem: "x \<in> set xs \<Longrightarrow> Suc (length (remove1 x xs)) = length xs"
  by (induction xs) auto

lemma counted_settleUpdate:
  assumes "counted s" and "request \<in> set (executing s)"
  shows "counted (settleUpdate i out request s)"
proof -
  from length_remove1_mem [OF assms(2)]
  have "length (remove1 request (executing s)) + 1 = length (executing s)" by simp
  with assms(1) show ?thesis by (simp add: counted_def settleUpdate_fields)
qed

lemma counted_finallyUpdate:
  assumes "counted s" and "f \<in> set (finishing s)"
  shows "counted (finallyUpdate i f s)"
proof -
  from length_remove1_mem [OF assms(2)]
  have "int (length (remove1 f (finishing s))) = int (length (finishing s)) - 1" by simp
  with assms(1) show ?thesis by (simp add: counted_def finallyUpdate_fields)
qed

lemma counted_run: "counted s \<Longrightarrow> counted (run evs s)"
proof (rule run_rule [where P = counted])
  fix s :: "'a ConcurrencyLimiter" and cfg
  assume "counted s"
  then show "counted (enqueue cfg s)" by (simp add: counted_def enqueue_fields)
next
  fix s :: "'a ConcurrencyLimiter" and request rest
  assume "counted s" "activeCount s < int (maxConcurrency s)"
  then show "counted (startRequest request (s\<lparr>queue := rest\<rparr>))"
    by (simp add: counted_def startRequest_fields)
next
  fix s :: "'a ConcurrencyLimiter" and i out request
  assume "counted s" "request \<in> set (executing s)"
  then show "counted (settleUpdate i out request s)" by (rule counted_settleUpdate)
next
  fix s :: "'a ConcurrencyLimiter" and i f
  assume "counted s" "f \<in> set (finishing s)"
  then show "counted (finallyUpdate i f s)" by (rule counted_finallyUpdate)
next
  fix s :: "'a ConcurrencyLimiter"
  assume "counted s"
  then show "counted (clear s)" by (simp add: counted_def clear_fields)
qed

lemma counted_new: "counted (newConcurrencyLimiter m)"
  by (simp add: counted_def new_fields)

lemma run_maxConcurrency: "maxConcurrency (run evs s) = maxConcurrency s"
  by (rule run_rule [where P = "\<lambda>t. maxConcurrency t = maxConcurrency s"])
     (simp_all add: enqueue_fields startRequest_fields settleUpdate_fields finallyUpdate_fields
        clear_fields)

text \<open>
  Claim C6. For every \<open>maxConcurrency\<close> \<open>m\<close> and every sequence of execute, settlement,
  \<^verbatim>\<open>finally\<close> and clear events on a new limiter, \<open>activeCount\<close> never exceeds \<open>m\<close>, and
  \<open>activeCount\<close> is exactly the number of requests that have been started and whose
  \<^verbatim>\<open>finally\<close> callback has not run yet: those whose executor call is pending and those that
  have settled and wait for the callback.
\<close>

theorem activeCount_bounded:
  "activeCount (run evs (newConcurrencyLimiter m)) \<le> int m \<and>
   activeCount (run evs (newConcurrencyLimiter m)) =
     int (length (executing (run evs (newConcurrencyLimiter m))) +
          length (finishing (run evs (newConcurrencyLimiter m))))"
proof -
  let ?s = "run evs (newConcurrencyLimiter m)"
  have "counted ?s" by (rule counted_run [OF counted_new])
  then have "activeCount ?s = int (length (executing ?s) + length (finishing ?s))"
    and "activeCount ?s \<le> int (maxConcurrency ?s)"
    unfolding counted_def by blast+
  moreover have "maxConcurrency ?s = m"
    by (simp only: run_maxConcurrency new_fields)
  ultimately show ?thesis by (simp only:)
qed

subsection \<open>FIFO admission\<close>

definition admission :: "'r ConcurrencyLimiter \<Rightarrow> nat list" where
  "admission s = map rid (invocations s) @ map rid (queue s)"

definition fifo :: "'r ConcurrencyLimiter \<Rightarrow> bool" where
  "fifo s = (sorted_wrt (<) (admission s) \<and> (\<forall>i \<in> set (admission s). i < nextId s))"

lemma fifo_run: "fifo s \<Longrightarrow> fifo (run evs s)"
proof (rule run_rule [where P = fifo])
  fix s :: "'a ConcurrencyLimiter" and cfg
  assume "fifo s"
  then show "fifo (enqueue cfg s)"
    by (auto simp: fifo_def admission_def enqueue_fields sorted_wrt_append less_Suc_eq)
next
  fix s :: "'a ConcurrencyLimiter" and request rest
  assume "fifo s" "queue s = request # rest"
  then show "fifo (startRequest request (s\<lparr>queue := rest\<rparr>))"
    by (simp add: fifo_def admission_def startRequest_fields)
next
  fix s :: "'a ConcurrencyLimiter" and i out request
  assume "fifo s"
  then show "fifo (settleUpdate i out request s)"
    by (simp add: fifo_def admission_def settleUpdate_fields)
next
  fix s :: "'a ConcurrencyLimiter" and i f
  assume "fifo s"
  then show "fifo (finallyUpdate i f s)"
    by (simp add: fifo_def admission_def finallyUpdate_fields)
next
  fix s :: "'a ConcurrencyLimiter"
  assume "fifo s"
  then show "fifo (clear s)"
    by (auto simp: fifo_def admission_def clear_fields sorted_wrt_append)
qed

lemma fifo_new: "fifo (newConcurrencyLimiter m)"
  by (simp add: fifo_def admission_def new_fields)

text \<open>
  Claim C7. Requests are numbered in the order in which \<^verbatim>\<open>execute\<close> enqueues them (a
  deduplicated caller enqueues nothing). After every sequence of execute, settlement,
  \<^verbatim>\<open>finally\<close> and clear events on a new limiter, the numbers of the requests started so
  far, in the order in which the executor was called for them, followed by the numbers of
  the requests still waiting, in queue order, are strictly increasing: requests start in
  the order of their enqueueing, and a waiting request was enqueued after every request
  that has started.
\<close>

theorem fifo_admission:
  "sorted_wrt (<)
     (map rid (invocations (run evs (newConcurrencyLimiter m))) @
      map rid (queue (run evs (newConcurrencyLimiter m))))"
  using fifo_run [OF fifo_new, of evs m] by (simp add: fifo_def admission_def)

subsection \<open>Request numbers\<close>

text \<open>
  The numbers of the requests that wait, execute or await their \<^verbatim>\<open>finally\<close> callback are
  pairwise different and below \<open>nextId\<close>.
\<close>

definition uniq :: "'r ConcurrencyLimiter \<Rightarrow> bool" where
  "uniq s =
     (distinct (map rid (executing s)) \<and> distinct (map (rid \<circ> fst) (finishing s)) \<and>
      distinct (map rid (queue s)) \<and>
      (\<forall>r \<in> set (executing s). \<forall>f \<in> set (finishing s). rid r \<noteq> rid (fst f)) \<and>
      (\<forall>r \<in> set (executing s). \<forall>q \<in> set (queue s). rid r \<noteq> rid q) \<and>
      (\<forall>f \<in> set (finishing s). \<forall>q \<in> set (queue s). rid (fst f) \<noteq> rid q) \<and>
      (\<forall>r \<in> set (executing s). rid r < nextId s) \<and>
      (\<forall>f \<in> set (finishing s). rid (fst f) < nextId s) \<and>
      (\<forall>r \<in> set (queue s). rid r < nextId s))"

lemma distinct_map_remove1: "distinct (map f xs) \<Longrightarrow> distinct (map f (remove1 x xs))"
proof (induction xs)
  case Nil
  show ?case by simp
next
  case (Cons y ys)
  have "set (remove1 x ys) \<subseteq> set ys" by (rule set_remove1_subset)
  with Cons show ?case by auto
qed

lemma image_remove1_distinct:
  "distinct (map f xs) \<Longrightarrow> x \<in> set xs \<Longrightarrow> f x \<notin> f ` set (remove1 x xs)"
proof (induction xs)
  case Nil
  then show ?case by simp
next
  case (Cons y ys)
  show ?case
  proof (cases "x = y")
    case True
    with Cons.prems show ?thesis by simp
  next
    case False
    with Cons.prems have m: "x \<in> set ys" and d: "distinct (map f ys)" and n: "f y \<notin> f ` set ys"
      by auto
    from m n have "f x \<noteq> f y" by (metis imageI)
    with Cons.IH [OF d m] False show ?thesis by simp
  qed
qed

lemma uniq_settleUpdate:
  assumes "uniq s" and "request \<in> set (executing s)"
  shows "uniq (settleUpdate i out request s)"
proof -
  have sub: "set (remove1 request (executing s)) \<subseteq> set (executing s)"
    by (rule set_remove1_subset)
  from assms(1) have d: "distinct (map rid (executing s))" by (simp add: uniq_def)
  have d': "distinct (map rid (remove1 request (executing s)))"
    using d by (rule distinct_map_remove1)
  have n: "rid request \<notin> rid ` set (remove1 request (executing s))"
    using d assms(2) by (rule image_remove1_distinct)
  from n have n': "\<forall>r \<in> set (remove1 request (executing s)). rid r \<noteq> rid request"
    by (metis imageI)
  from assms(1) have u: "distinct (map (rid \<circ> fst) (finishing s))"
      "distinct (map rid (queue s))"
      "\<forall>r \<in> set (executing s). \<forall>f \<in> set (finishing s). rid r \<noteq> rid (fst f)"
      "\<forall>r \<in> set (executing s). \<forall>q \<in> set (queue s). rid r \<noteq> rid q"
      "\<forall>f \<in> set (finishing s). \<forall>q \<in> set (queue s). rid (fst f) \<noteq> rid q"
      "\<forall>r \<in> set (executing s). rid r < nextId s"
      "\<forall>f \<in> set (finishing s). rid (fst f) < nextId s"
      "\<forall>r \<in> set (queue s). rid r < nextId s"
    by (simp_all add: uniq_def)
  have 1: "distinct (map (rid \<circ> fst) (finishing s @ [(request, out)]))"
    using u(1,3) assms(2) by (auto simp: image_iff)
  have 2: "\<forall>r \<in> set (remove1 request (executing s)).
      \<forall>f \<in> set (finishing s @ [(request, out)]). rid r \<noteq> rid (fst f)"
    using u(3) sub n' by auto
  have 3: "\<forall>r \<in> set (remove1 request (executing s)). \<forall>q \<in> set (queue s). rid r \<noteq> rid q"
    using u(4) sub by blast
  have 4: "\<forall>f \<in> set (finishing s @ [(request, out)]). \<forall>q \<in> set (queue s). rid (fst f) \<noteq> rid q"
    using u(4,5) assms(2) by auto
  have 5: "\<forall>r \<in> set (remove1 request (executing s)). rid r < nextId s"
    using u(6) sub by blast
  have 6: "\<forall>f \<in> set (finishing s @ [(request, out)]). rid (fst f) < nextId s"
    using u(6,7) assms(2) by auto
  from d' 1 u(2) 2 3 4 5 6 u(8) show ?thesis
    unfolding uniq_def settleUpdate_fields by blast
qed

lemma uniq_finallyUpdate:
  assumes "uniq s"
  shows "uniq (finallyUpdate i f s)"
proof -
  have sub: "set (remove1 f (finishing s)) \<subseteq> set (finishing s)"
    by (rule set_remove1_subset)
  from assms have "distinct (map (rid \<circ> fst) (finishing s))" by (simp add: uniq_def)
  then have d': "distinct (map (rid \<circ> fst) (remove1 f (finishing s)))"
    by (rule distinct_map_remove1)
  from assms have u: "distinct (map rid (executing s))" "distinct (map rid (queue s))"
      "\<forall>r \<in> set (executing s). \<forall>f \<in> set (finishing s). rid r \<noteq> rid (fst f)"
      "\<forall>r \<in> set (executing s). \<forall>q \<in> set (queue s). rid r \<noteq> rid q"
      "\<forall>f \<in> set (finishing s). \<forall>q \<in> set (queue s). rid (fst f) \<noteq> rid q"
      "\<forall>r \<in> set (executing s). rid r < nextId s"
      "\<forall>f \<in> set (finishing s). rid (fst f) < nextId s"
      "\<forall>r \<in> set (queue s). rid r < nextId s"
    by (simp_all add: uniq_def)
  have 1: "\<forall>r \<in> set (executing s). \<forall>f \<in> set (remove1 f (finishing s)). rid r \<noteq> rid (fst f)"
    using u(3) sub by blast
  have 2: "\<forall>f \<in> set (remove1 f (finishing s)). \<forall>q \<in> set (queue s). rid (fst f) \<noteq> rid q"
    using u(5) sub by blast
  have 3: "\<forall>f \<in> set (remove1 f (finishing s)). rid (fst f) < nextId s"
    using u(7) sub by blast
  from u(1) d' u(2) 1 u(4) 2 u(6) 3 u(8) show ?thesis
    unfolding uniq_def finallyUpdate_fields by blast
qed

lemma uniq_run: "uniq s \<Longrightarrow> uniq (run evs s)"
proof (rule run_rule [where P = uniq])
  fix s :: "'a ConcurrencyLimiter" and cfg
  assume "uniq s"
  then show "uniq (enqueue cfg s)"
    unfolding uniq_def enqueue_fields by (fastforce simp: less_Suc_eq)
next
  fix s :: "'a ConcurrencyLimiter" and request rest
  assume "uniq s" "queue s = request # rest"
  then show "uniq (startRequest request (s\<lparr>queue := rest\<rparr>))"
    unfolding uniq_def startRequest_fields by fastforce
next
  fix s :: "'a ConcurrencyLimiter" and i out request
  assume "uniq s" "request \<in> set (executing s)"
  then show "uniq (settleUpdate i out request s)" by (rule uniq_settleUpdate)
next
  fix s :: "'a ConcurrencyLimiter" and i f
  assume "uniq s"
  then show "uniq (finallyUpdate i f s)" by (rule uniq_finallyUpdate)
next
  fix s :: "'a ConcurrencyLimiter"
  assume "uniq s"
  then show "uniq (clear s)" unfolding uniq_def clear_fields by simp
qed

lemma uniq_new: "uniq (newConcurrencyLimiter m)"
  by (simp add: uniq_def new_fields)

subsection \<open>The in-flight map\<close>

text \<open>
  The requests that have been started and whose \<^verbatim>\<open>finally\<close> callback has not run: the
  limiter counts them in \<open>activeCount\<close>.
\<close>

definition active :: "'r ConcurrencyLimiter \<Rightarrow> QueuedRequest set" where
  "active s = set (executing s) \<union> fst ` set (finishing s)"

text \<open>An entry of \<^verbatim>\<open>inFlight\<close> is the chain promise of an active request with that key.\<close>

definition registered :: "'r ConcurrencyLimiter \<Rightarrow> bool" where
  "registered s =
     (\<forall>k p. inFlight s k = Some p \<longrightarrow>
        (\<exists>r \<in> active s. rid r = p \<and> getDedupeKey (config r) = k \<and>
           dedupeEnabled (config r)))"

lemma registered_keep:
  assumes "registered s" and "inFlight t = inFlight s" and "active s \<subseteq> active t"
  shows "registered t"
  using assms unfolding registered_def by (metis subsetD)

lemma active_settleUpdate:
  "request \<in> set (executing s) \<Longrightarrow> active s \<subseteq> active (settleUpdate i out request s)"
  by (auto simp: active_def settleUpdate_fields image_iff)

lemma registered_startRequest:
  assumes "registered s"
  shows "registered (startRequest request (s\<lparr>queue := rest\<rparr>))"
  unfolding registered_def
proof (intro allI impI)
  fix k p
  let ?t = "startRequest request (s\<lparr>queue := rest\<rparr>)"
  have a: "active ?t = insert request (active s)"
    by (auto simp: active_def startRequest_fields)
  assume e: "inFlight ?t k = Some p"
  show "\<exists>r \<in> active ?t. rid r = p \<and> getDedupeKey (config r) = k \<and> dedupeEnabled (config r)"
  proof (cases "dedupeEnabled (config request) \<and> k = getDedupeKey (config request)")
    case True
    with e have "rid request = p" by (simp add: startRequest_fields)
    with True a show ?thesis by auto
  next
    case False
    with e have "inFlight s k = Some p" by (auto simp: startRequest_fields split: if_splits)
    with assms obtain r where "r \<in> active s" "rid r = p"
      "getDedupeKey (config r) = k" "dedupeEnabled (config r)"
      unfolding registered_def by blast
    with a show ?thesis by auto
  qed
qed

lemma registered_finallyUpdate:
  assumes "registered s"
  shows "registered (finallyUpdate i f s)"
  unfolding registered_def
proof (intro allI impI)
  fix k p
  let ?t = "finallyUpdate i f s"
  assume e: "inFlight ?t k = Some p"
  then have k: "k \<noteq> getDedupeKey (config (fst f))" and "inFlight s k = Some p"
    by (auto simp: finallyUpdate_fields split: if_splits)
  with assms obtain r where r: "r \<in> active s" "rid r = p"
    "getDedupeKey (config r) = k" "dedupeEnabled (config r)"
    unfolding registered_def by blast
  from r(3) k have n: "r \<noteq> fst f" by auto
  have "r \<in> active ?t"
  proof (cases "r \<in> set (executing s)")
    case True
    then show ?thesis by (simp add: active_def finallyUpdate_fields)
  next
    case False
    with r(1) obtain g where g: "g \<in> set (finishing s)" "fst g = r"
      by (auto simp: active_def)
    with n have "g \<noteq> f" by auto
    with g have "g \<in> set (remove1 f (finishing s))" by simp
    with g(2) show ?thesis by (auto simp: active_def finallyUpdate_fields image_iff)
  qed
  with r show "\<exists>r \<in> active ?t. rid r = p \<and> getDedupeKey (config r) = k \<and>
      dedupeEnabled (config r)" by blast
qed

lemma registered_run: "registered s \<Longrightarrow> registered (run evs s)"
proof (rule run_rule [where P = registered])
  fix s :: "'a ConcurrencyLimiter" and cfg
  assume "registered s"
  then show "registered (enqueue cfg s)"
    by (rule registered_keep [of s]) (simp_all add: enqueue_fields active_def)
next
  fix s :: "'a ConcurrencyLimiter" and request rest
  assume "registered s"
  then show "registered (startRequest request (s\<lparr>queue := rest\<rparr>))"
    by (rule registered_startRequest)
next
  fix s :: "'a ConcurrencyLimiter" and i out request
  assume a: "registered s" and b: "request \<in> set (executing s)"
  show "registered (settleUpdate i out request s)"
    by (rule registered_keep [OF a _ active_settleUpdate [OF b]])
       (simp add: settleUpdate_fields)
next
  fix s :: "'a ConcurrencyLimiter" and i f
  assume "registered s"
  then show "registered (finallyUpdate i f s)" by (rule registered_finallyUpdate)
next
  fix s :: "'a ConcurrencyLimiter"
  show "registered (clear s)" by (simp add: registered_def clear_fields)
qed

lemma registered_new: "registered (newConcurrencyLimiter m)"
  by (simp add: registered_def new_fields)

text \<open>
  An entry stays as it is while no event disturbs it, provided no dedupe-enabled request
  with the same key waits in the queue (such a request would overwrite it when it starts).
\<close>

definition held :: "string \<Rightarrow> nat \<Rightarrow> 'r ConcurrencyLimiter \<Rightarrow> bool" where
  "held k p s =
     (inFlight s k = Some p \<and>
      (\<forall>r \<in> set (queue s). getDedupeKey (config r) = k \<longrightarrow> \<not> dedupeEnabled (config r)))"

lemma held_processQueue: "held k p s \<Longrightarrow> held k p (processQueue s)"
proof (rule processQueue_rule [where P = "held k p"])
  fix s :: "'a ConcurrencyLimiter" and request rest
  assume "held k p s" "queue s = request # rest"
  then show "held k p (startRequest request (s\<lparr>queue := rest\<rparr>))"
    by (auto simp: held_def startRequest_fields)
qed

lemma held_step:
  assumes "held k p s" and "\<not> disturbs k e s"
  shows "held k p (step e s)"
proof (cases e)
  case (Execute cfg)
  show ?thesis
  proof (cases cfg s rule: execute_cases)
    case (dedup q)
    with assms(1) Execute show ?thesis by simp
  next
    case fresh
    with assms(1) have "getDedupeKey cfg = k \<longrightarrow> \<not> dedupeEnabled cfg"
      by (auto simp: held_def)
    with assms(1) have "held k p (enqueue cfg s)"
      by (auto simp: held_def enqueue_fields)
    then have "held k p (processQueue (enqueue cfg s))" by (rule held_processQueue)
    with fresh Execute show ?thesis by simp
  qed
next
  case (Settle i out)
  show ?thesis
  proof (cases rule: settle_cases [where i = i and s = s and out = out])
    case idle
    with assms(1) Settle show ?thesis by simp
  next
    case (settles request)
    from assms(1) have "held k p (settleUpdate i out request s)"
      by (simp add: held_def settleUpdate_fields)
    with settles Settle show ?thesis by simp
  qed
next
  case (Finally i)
  show ?thesis
  proof (cases rule: finallyHandler_cases [where i = i and s = s])
    case idle
    with assms(1) Finally show ?thesis by simp
  next
    case (finishes f)
    from assms(2) Finally finishes(4) have "getDedupeKey (config (fst f)) \<noteq> k" by simp
    with assms(1) have "held k p (finallyUpdate i f s)"
      by (auto simp: held_def finallyUpdate_fields)
    then have "held k p (processQueue (finallyUpdate i f s))" by (rule held_processQueue)
    with finishes Finally show ?thesis by simp
  qed
next
  case Clear
  with assms(2) show ?thesis by simp
qed

lemma held_run: "held k p s \<Longrightarrow> undisturbed k evs s \<Longrightarrow> held k p (run evs s)"
  unfolding run_def
proof (induction evs arbitrary: s)
  case Nil
  then show ?case by simp
next
  case (Cons e evs)
  from Cons.prems have d: "\<not> disturbs k e s" and u: "undisturbed k evs (step e s)" by simp_all
  from Cons.prems(1) d have "held k p (step e s)" by (rule held_step)
  from Cons.IH [OF this u] show ?case by simp
qed

subsection \<open>Settled promises\<close>

lemma rejectAll_apply:
  "rejectAll q m p =
     (if p \<in> Caller ` rid ` set q then Some (Rejected ''Queue cleared'') else m p)"
  by (induction q arbitrary: m) auto

lemma uniq_bound:
  assumes "uniq s"
  shows "r \<in> set (executing s) \<Longrightarrow> rid r < nextId s"
    and "f \<in> set (finishing s) \<Longrightarrow> rid (fst f) < nextId s"
    and "q \<in> set (queue s) \<Longrightarrow> rid q < nextId s"
  using assms unfolding uniq_def by blast+

text \<open>No promise of a request number that has not been handed out is settled.\<close>

definition fresh :: "'r ConcurrencyLimiter \<Rightarrow> bool" where
  "fresh s = (\<forall>i \<ge> nextId s. settled s (Caller i) = None \<and> settled s (Chain i) = None)"

lemma fresh_clear:
  assumes "uniq s" and "fresh s"
  shows "fresh (clear s)"
proof -
  have "\<And>i. nextId s \<le> i \<Longrightarrow> i \<notin> rid ` set (queue s)"
    using uniq_bound(3) [OF assms(1)] by fastforce
  then have "\<And>i. nextId s \<le> i \<Longrightarrow> Caller i \<notin> Caller ` rid ` set (queue s)"
   and "\<And>i. Chain i \<notin> Caller ` rid ` set (queue s)"
    by auto
  with assms(2) show ?thesis
    by (simp add: fresh_def clear_fields rejectAll_apply)
qed

lemma uniq_fresh_run:
  assumes "uniq s" and "fresh s"
  shows "uniq (run evs s) \<and> fresh (run evs s)"
proof (rule run_rule [where P = "\<lambda>s. uniq s \<and> fresh s"])
  show "uniq s \<and> fresh s" using assms by simp
next
  fix s :: "'a ConcurrencyLimiter" and cfg
  assume "uniq s \<and> fresh s"
  then have "uniq (enqueue cfg s)" unfolding uniq_def enqueue_fields by (fastforce simp: less_Suc_eq)
  moreover from \<open>uniq s \<and> fresh s\<close> have "fresh (enqueue cfg s)"
    by (simp add: fresh_def enqueue_fields)
  ultimately show "uniq (enqueue cfg s) \<and> fresh (enqueue cfg s)" ..
next
  fix s :: "'a ConcurrencyLimiter" and request rest
  assume a: "uniq s \<and> fresh s" and q: "queue s = request # rest"
  then have "uniq (startRequest request (s\<lparr>queue := rest\<rparr>))"
    unfolding uniq_def startRequest_fields by fastforce
  with a show "uniq (startRequest request (s\<lparr>queue := rest\<rparr>)) \<and>
      fresh (startRequest request (s\<lparr>queue := rest\<rparr>))"
    by (simp add: fresh_def startRequest_fields)
next
  fix s :: "'a ConcurrencyLimiter" and i out request
  assume a: "uniq s \<and> fresh s" and m: "request \<in> set (executing s)" and r: "rid request = i"
  from a m r have "i < nextId s" using uniq_bound(1) by blast
  with a m show "uniq (settleUpdate i out request s) \<and> fresh (settleUpdate i out request s)"
    by (simp add: uniq_settleUpdate fresh_def settleUpdate_fields)
next
  fix s :: "'a ConcurrencyLimiter" and i f
  assume a: "uniq s \<and> fresh s" and m: "f \<in> set (finishing s)" and r: "rid (fst f) = i"
  from a m r have "i < nextId s" using uniq_bound(2) by blast
  with a show "uniq (finallyUpdate i f s) \<and> fresh (finallyUpdate i f s)"
    by (simp add: uniq_finallyUpdate fresh_def finallyUpdate_fields)
next
  fix s :: "'a ConcurrencyLimiter"
  assume a: "uniq s \<and> fresh s"
  then have "uniq (clear s)" unfolding uniq_def clear_fields by simp
  with a show "uniq (clear s) \<and> fresh (clear s)" by (simp add: fresh_clear)
qed

lemma fresh_new: "fresh (newConcurrencyLimiter m)"
  by (simp add: fresh_def new_fields)

text \<open>
  The two promises of a request \<open>i\<close> that has left the queue: while it executes neither is
  settled; between the settlement and the \<^verbatim>\<open>finally\<close> callback the caller's promise has the
  executor's outcome and the chain is unsettled; afterwards both have that outcome.
\<close>

definition agree :: "nat \<Rightarrow> 'r ConcurrencyLimiter \<Rightarrow> bool" where
  "agree i s =
     (i < nextId s \<and> (\<forall>q \<in> set (queue s). rid q \<noteq> i) \<and>
      (\<forall>r \<in> set (executing s). rid r = i \<longrightarrow> settled s (Chain i) = None) \<and>
      (\<forall>f \<in> set (finishing s). rid (fst f) = i \<longrightarrow>
         settled s (Caller i) = Some (snd f) \<and> settled s (Chain i) = None) \<and>
      ((\<forall>r \<in> set (executing s). rid r \<noteq> i) \<and> (\<forall>f \<in> set (finishing s). rid (fst f) \<noteq> i) \<longrightarrow>
         settled s (Chain i) = settled s (Caller i)))"

lemma agree_chain:
  assumes "agree i s" and "settled s (Chain i) = Some out"
  shows "settled s (Caller i) = Some out"
proof -
  from assms have 1: "\<forall>r \<in> set (executing s). rid r \<noteq> i"
    and 2: "\<forall>f \<in> set (finishing s). rid (fst f) \<noteq> i"
    unfolding agree_def by fastforce+
  with assms show ?thesis unfolding agree_def by simp
qed

lemma agree_settleUpdate:
  assumes "uniq s" and "agree i s" and "request \<in> set (executing s)" and "rid request = j"
  shows "agree i (settleUpdate j out request s)"
proof (cases "j = i")
  case True
  have sub: "set (remove1 request (executing s)) \<subseteq> set (executing s)"
    by (rule set_remove1_subset)
  from assms(1) have d: "distinct (map rid (executing s))" by (simp add: uniq_def)
  have "rid request \<notin> rid ` set (remove1 request (executing s))"
    using d assms(3) by (rule image_remove1_distinct)
  with True assms(4) have n: "\<forall>r \<in> set (remove1 request (executing s)). rid r \<noteq> i"
    by (metis imageI)
  from assms(1) have "\<forall>r \<in> set (executing s). \<forall>f \<in> set (finishing s). rid r \<noteq> rid (fst f)"
    by (simp add: uniq_def)
  with assms(3,4) True have nf: "\<forall>f \<in> set (finishing s). rid (fst f) \<noteq> i"
    by metis
  from assms(2,3,4) True have c: "settled s (Chain i) = None"
    unfolding agree_def by auto
  from assms(2) have b: "i < nextId s" "\<forall>q \<in> set (queue s). rid q \<noteq> i"
    unfolding agree_def by blast+
  from b n nf c True assms(4) show ?thesis
    unfolding agree_def settleUpdate_fields by auto
next
  case False
  have sub: "set (remove1 request (executing s)) \<subseteq> set (executing s)"
    by (rule set_remove1_subset)
  have stay: "\<And>r. r \<in> set (executing s) \<Longrightarrow> rid r = i \<Longrightarrow>
      r \<in> set (remove1 request (executing s))"
  proof -
    fix r
    assume r: "r \<in> set (executing s)" "rid r = i"
    from r(2) False assms(4) have "r \<noteq> request" by auto
    with r(1) show "r \<in> set (remove1 request (executing s))" by simp
  qed
  from assms(2) have a: "i < nextId s" "\<forall>q \<in> set (queue s). rid q \<noteq> i"
    and a3: "\<forall>r \<in> set (executing s). rid r = i \<longrightarrow> settled s (Chain i) = None"
    and a4: "\<forall>f \<in> set (finishing s). rid (fst f) = i \<longrightarrow>
         settled s (Caller i) = Some (snd f) \<and> settled s (Chain i) = None"
    and a5: "(\<forall>r \<in> set (executing s). rid r \<noteq> i) \<and>
         (\<forall>f \<in> set (finishing s). rid (fst f) \<noteq> i) \<longrightarrow>
         settled s (Chain i) = settled s (Caller i)"
    by (simp_all add: agree_def)
  let ?m = "(settled s)(Caller j \<mapsto> out)"
  from False have m: "?m (Caller i) = settled s (Caller i)" "?m (Chain i) = settled s (Chain i)"
    by simp_all
  have 3: "\<forall>r \<in> set (remove1 request (executing s)). rid r = i \<longrightarrow> ?m (Chain i) = None"
    using a3 sub by auto
  have 4: "\<forall>f \<in> set (finishing s @ [(request, out)]). rid (fst f) = i \<longrightarrow>
         ?m (Caller i) = Some (snd f) \<and> ?m (Chain i) = None"
    using a4 False assms(4) by auto
  have 5: "(\<forall>r \<in> set (remove1 request (executing s)). rid r \<noteq> i) \<and>
         (\<forall>f \<in> set (finishing s @ [(request, out)]). rid (fst f) \<noteq> i) \<longrightarrow>
         ?m (Chain i) = ?m (Caller i)"
  proof
    assume h: "(\<forall>r \<in> set (remove1 request (executing s)). rid r \<noteq> i) \<and>
         (\<forall>f \<in> set (finishing s @ [(request, out)]). rid (fst f) \<noteq> i)"
    with stay have "\<forall>r \<in> set (executing s). rid r \<noteq> i" by blast
    moreover from h have "\<forall>f \<in> set (finishing s). rid (fst f) \<noteq> i" by simp
    ultimately have "settled s (Chain i) = settled s (Caller i)" using a5 by blast
    then show "?m (Chain i) = ?m (Caller i)" unfolding m .
  qed
  from a 3 4 5 show ?thesis
    unfolding agree_def settleUpdate_fields by blast
qed

lemma agree_finallyUpdate:
  assumes "uniq s" and "agree i s" and "f \<in> set (finishing s)" and "rid (fst f) = j"
  shows "agree i (finallyUpdate j f s)"
proof (cases "j = i")
  case True
  have sub: "set (remove1 f (finishing s)) \<subseteq> set (finishing s)"
    by (rule set_remove1_subset)
  from assms(1) have d: "distinct (map (rid \<circ> fst) (finishing s))" by (simp add: uniq_def)
  have "(rid \<circ> fst) f \<notin> (rid \<circ> fst) ` set (remove1 f (finishing s))"
    using d assms(3) by (rule image_remove1_distinct)
  with True assms(4) have n: "\<forall>g \<in> set (remove1 f (finishing s)). rid (fst g) \<noteq> i"
    by (metis comp_apply imageI)
  from assms(1) have "\<forall>r \<in> set (executing s). \<forall>f \<in> set (finishing s). rid r \<noteq> rid (fst f)"
    by (simp add: uniq_def)
  with assms(3,4) True have ne: "\<forall>r \<in> set (executing s). rid r \<noteq> i"
    by metis
  from assms(2,3,4) True have c: "settled s (Caller i) = Some (snd f)"
    unfolding agree_def by auto
  from assms(2) have b: "i < nextId s" "\<forall>q \<in> set (queue s). rid q \<noteq> i"
    unfolding agree_def by blast+
  from b n ne c True assms(4) show ?thesis
    unfolding agree_def finallyUpdate_fields by auto
next
  case False
  have sub: "set (remove1 f (finishing s)) \<subseteq> set (finishing s)"
    by (rule set_remove1_subset)
  have stay: "\<And>g. g \<in> set (finishing s) \<Longrightarrow> rid (fst g) = i \<Longrightarrow>
      g \<in> set (remove1 f (finishing s))"
  proof -
    fix g
    assume g: "g \<in> set (finishing s)" "rid (fst g) = i"
    from g(2) False assms(4) have "g \<noteq> f" by auto
    with g(1) show "g \<in> set (remove1 f (finishing s))" by simp
  qed
  from assms(2) have a: "i < nextId s" "\<forall>q \<in> set (queue s). rid q \<noteq> i"
    and a3: "\<forall>r \<in> set (executing s). rid r = i \<longrightarrow> settled s (Chain i) = None"
    and a4: "\<forall>f \<in> set (finishing s). rid (fst f) = i \<longrightarrow>
         settled s (Caller i) = Some (snd f) \<and> settled s (Chain i) = None"
    and a5: "(\<forall>r \<in> set (executing s). rid r \<noteq> i) \<and>
         (\<forall>f \<in> set (finishing s). rid (fst f) \<noteq> i) \<longrightarrow>
         settled s (Chain i) = settled s (Caller i)"
    by (simp_all add: agree_def)
  let ?m = "(settled s)(Chain j \<mapsto> snd f)"
  from False have m: "?m (Caller i) = settled s (Caller i)" "?m (Chain i) = settled s (Chain i)"
    by simp_all
  have 3: "\<forall>r \<in> set (executing s). rid r = i \<longrightarrow> ?m (Chain i) = None"
    using a3 False by auto
  have 4: "\<forall>g \<in> set (remove1 f (finishing s)). rid (fst g) = i \<longrightarrow>
         ?m (Caller i) = Some (snd g) \<and> ?m (Chain i) = None"
    using a4 sub False by auto
  have 5: "(\<forall>r \<in> set (executing s). rid r \<noteq> i) \<and>
         (\<forall>g \<in> set (remove1 f (finishing s)). rid (fst g) \<noteq> i) \<longrightarrow>
         ?m (Chain i) = ?m (Caller i)"
  proof
    assume h: "(\<forall>r \<in> set (executing s). rid r \<noteq> i) \<and>
         (\<forall>g \<in> set (remove1 f (finishing s)). rid (fst g) \<noteq> i)"
    with stay have "\<forall>g \<in> set (finishing s). rid (fst g) \<noteq> i" by blast
    with h have "settled s (Chain i) = settled s (Caller i)" using a5 by blast
    then show "?m (Chain i) = ?m (Caller i)" unfolding m .
  qed
  from a 3 4 5 show ?thesis
    unfolding agree_def finallyUpdate_fields by blast
qed

lemma agree_clear:
  assumes "agree i s"
  shows "agree i (clear s)"
proof -
  from assms have "Caller i \<notin> Caller ` rid ` set (queue s)"
    unfolding agree_def by auto
  moreover have "Chain i \<notin> Caller ` rid ` set (queue s)" by auto
  ultimately show ?thesis
    using assms unfolding agree_def clear_fields by (simp add: rejectAll_apply)
qed

lemma uniq_agree_run:
  assumes "uniq s" and "agree i s"
  shows "uniq (run evs s) \<and> agree i (run evs s)"
proof (rule run_rule [where P = "\<lambda>s. uniq s \<and> agree i s"])
  show "uniq s \<and> agree i s" using assms by simp
next
  fix s :: "'a ConcurrencyLimiter" and cfg
  assume a: "uniq s \<and> agree i s"
  then have "uniq (enqueue cfg s)" unfolding uniq_def enqueue_fields by (fastforce simp: less_Suc_eq)
  moreover from a have "agree i (enqueue cfg s)"
    unfolding agree_def enqueue_fields by auto
  ultimately show "uniq (enqueue cfg s) \<and> agree i (enqueue cfg s)" ..
next
  fix s :: "'a ConcurrencyLimiter" and request rest
  assume a: "uniq s \<and> agree i s" and q: "queue s = request # rest"
  then have "uniq (startRequest request (s\<lparr>queue := rest\<rparr>))"
    unfolding uniq_def startRequest_fields by fastforce
  moreover from a q have "agree i (startRequest request (s\<lparr>queue := rest\<rparr>))"
    unfolding agree_def startRequest_fields by auto
  ultimately show "uniq (startRequest request (s\<lparr>queue := rest\<rparr>)) \<and>
      agree i (startRequest request (s\<lparr>queue := rest\<rparr>))" ..
next
  fix s :: "'a ConcurrencyLimiter" and j out request
  assume a: "uniq s \<and> agree i s" and m: "request \<in> set (executing s)" and r: "rid request = j"
  then show "uniq (settleUpdate j out request s) \<and> agree i (settleUpdate j out request s)"
    by (simp add: uniq_settleUpdate agree_settleUpdate)
next
  fix s :: "'a ConcurrencyLimiter" and j f
  assume a: "uniq s \<and> agree i s" and m: "f \<in> set (finishing s)" and r: "rid (fst f) = j"
  then show "uniq (finallyUpdate j f s) \<and> agree i (finallyUpdate j f s)"
    by (simp add: uniq_finallyUpdate agree_finallyUpdate)
next
  fix s :: "'a ConcurrencyLimiter"
  assume a: "uniq s \<and> agree i s"
  then have "uniq (clear s)" unfolding uniq_def clear_fields by simp
  with a show "uniq (clear s) \<and> agree i (clear s)" by (simp add: agree_clear)
qed

subsection \<open>Deduplication\<close>

definition saturated :: "'r ConcurrencyLimiter \<Rightarrow> bool" where
  "saturated s = (queue s = [] \<or> int (maxConcurrency s) \<le> activeCount s)"

lemma saturated_step: "saturated s \<Longrightarrow> saturated (step e s)"
proof (cases e)
  case (Execute cfg)
  assume "saturated s"
  then show ?thesis using Execute
    by (cases cfg s rule: execute_cases) (simp_all add: saturated_def processQueue_saturated)
next
  case (Settle i out)
  assume "saturated s"
  then show ?thesis using Settle
    by (cases rule: settle_cases [where i = i and s = s and out = out])
       (simp_all add: saturated_def settleUpdate_fields)
next
  case (Finally i)
  assume "saturated s"
  then show ?thesis using Finally
    by (cases rule: finallyHandler_cases [where i = i and s = s])
       (simp_all add: saturated_def processQueue_saturated)
next
  case Clear
  then show ?thesis by (simp add: saturated_def clear_fields)
qed

lemma saturated_run: "saturated s \<Longrightarrow> saturated (run evs s)"
  unfolding run_def by (induction evs arbitrary: s) (simp_all add: saturated_step)

lemma saturated_new: "saturated (newConcurrencyLimiter m)"
  by (simp add: saturated_def new_fields)

lemma processQueue_empty: "queue s = [] \<Longrightarrow> processQueue s = s"
  by (subst processQueue.simps) simp

lemma processQueue_single:
  assumes "queue s = [request]" and "activeCount s < int (maxConcurrency s)"
  shows "processQueue s = startRequest request (s\<lparr>queue := []\<rparr>)"
proof -
  have "processQueue s = processQueue (startRequest request (s\<lparr>queue := []\<rparr>))"
    using assms by (subst processQueue.simps) simp
  also have "\<dots> = startRequest request (s\<lparr>queue := []\<rparr>)"
    by (rule processQueue_empty) (simp add: startRequest_fields)
  finally show ?thesis .
qed

lemma run_append: "run (evs @ evs') s = run evs' (run evs s)"
  by (simp add: run_def)

lemma execute_attached:
  assumes "dedupeEnabled cfg" and "inFlight s (getDedupeKey cfg) = Some p"
  shows "execute cfg s = (Chain p, s)"
  using assms by (simp add: execute_def)

text \<open>
  Claim C5, as amended. Take a limiter reached by any sequence of events that has a free
  slot (\<open>activeCount < maxConcurrency\<close>) when the first of two calls of \<^verbatim>\<open>execute\<close> with
  identical command and args and dedupe enabled is made, and let any events happen between
  the two calls that do not disturb the key's entry: no \<^verbatim>\<open>clear()\<close> and no \<^verbatim>\<open>finally\<close>
  callback of a request with that key (so the first request is still in flight at the
  second call). Then the executor is called at most once for the two: exactly once by the
  first call when no request with the key was in flight, not at all when the first call
  was itself attached to one, and never by the second call, which changes nothing. The
  second caller is handed the chain promise of an active request with that key, the one
  that serves the first caller. After any further events, when the second caller's promise
  has settled the first caller's promise has settled too, with the same outcome (the same
  value or the same rejection).
\<close>

theorem dedupe_shares_execution:
  assumes "s = run evs0 (newConcurrencyLimiter m)"
    and "activeCount s < int (maxConcurrency s)"
    and "dedupeEnabled cfg" and "dedupeEnabled cfg'"
    and "command cfg' = command cfg" and "args cfg' = args cfg"
    and "execute cfg s = (p1, s1)"
    and "undisturbed (getDedupeKey cfg) evs s1"
    and "execute cfg' (run evs s1) = (p2, s2)"
  shows "s2 = run evs s1 \<and>
     (inFlight s (getDedupeKey cfg) = None \<longrightarrow>
        invocations s1 = invocations s @ [\<lparr>config = cfg, rid = nextId s\<rparr>] \<and>
        p1 = Caller (nextId s) \<and> p2 = Chain (nextId s)) \<and>
     (inFlight s (getDedupeKey cfg) \<noteq> None \<longrightarrow> invocations s1 = invocations s \<and> p1 = p2) \<and>
     (\<exists>r \<in> active s2. getDedupeKey (config r) = getDedupeKey cfg \<and>
        p2 = Chain (rid r) \<and> (p1 = Caller (rid r) \<or> p1 = Chain (rid r))) \<and>
     (settled (run evs' s2) p2 = Some out \<longrightarrow> settled (run evs' s2) p1 = Some out)"
proof -
  let ?k = "getDedupeKey cfg"
  have key: "getDedupeKey cfg' = ?k"
    using assms(5,6) by (simp add: getDedupeKey_def)
  have sat: "saturated s" unfolding assms(1) by (rule saturated_run [OF saturated_new])
  have uf: "uniq s \<and> fresh s"
    unfolding assms(1) by (rule uniq_fresh_run [OF uniq_new fresh_new])
  from sat assms(2) have q: "queue s = []" by (simp add: saturated_def)
  have s1: "s1 = run (evs0 @ [Execute cfg]) (newConcurrencyLimiter m)"
    using assms(1,7) by (simp add: run_def)
  have u1: "uniq s1" unfolding s1 by (rule uniq_run [OF uniq_new])
  have reg2: "registered (run evs s1)"
    unfolding s1 run_append [symmetric] by (rule registered_run [OF registered_new])
  \<comment> \<open>the entry that the first call leaves behind\<close>
  have first: "\<exists>p. held ?k p s1 \<and>
      (inFlight s ?k = None \<longrightarrow>
         invocations s1 = invocations s @ [\<lparr>config = cfg, rid = nextId s\<rparr>] \<and>
         p1 = Caller (nextId s) \<and> p = nextId s \<and> agree p s1) \<and>
      (inFlight s ?k \<noteq> None \<longrightarrow> invocations s1 = invocations s \<and> p1 = Chain p)"
  proof (cases cfg s rule: execute_cases)
    case (dedup p)
    with assms(7) have 1: "p1 = Chain p" "s1 = s" by simp_all
    from dedup(2) q have "held ?k p s" by (simp add: held_def)
    with 1 dedup(2) show ?thesis by auto
  next
    case fresh
    let ?r = "\<lparr>config = cfg, rid = nextId s\<rparr>"
    from fresh(2) assms(3) have none: "inFlight s ?k = None" by simp
    have "processQueue (enqueue cfg s) = startRequest ?r ((enqueue cfg s)\<lparr>queue := []\<rparr>)"
      using q assms(2) by (intro processQueue_single) (simp_all add: enqueue_fields)
    with fresh(1) assms(7)
    have 1: "p1 = Caller (nextId s)" "s1 = startRequest ?r ((enqueue cfg s)\<lparr>queue := []\<rparr>)"
      by simp_all
    have f1: "inFlight s1 ?k = Some (nextId s)"
      and f2: "invocations s1 = invocations s @ [?r]"
      and f3: "executing s1 = executing s @ [?r]"
      and f4: "settled s1 = settled s"
      and f5: "queue s1 = []"
      and f6: "nextId s1 = nextId s + 1"
      and f7: "finishing s1 = finishing s"
      using assms(3) unfolding 1 by (simp_all add: startRequest_fields enqueue_fields)
    from f1 f5 have h: "held ?k (nextId s) s1" by (simp add: held_def)
    from uf have c: "settled s (Chain (nextId s)) = None" by (simp add: fresh_def)
    from uf have nf: "\<forall>f \<in> set (finishing s). rid (fst f) \<noteq> nextId s"
      using uniq_bound(2) [of s] by fastforce
    have "agree (nextId s) s1"
      unfolding agree_def f3 f4 f5 f6 f7 using c nf by auto
    with h none f2 1(1) show ?thesis by auto
  qed
  then obtain p where hab: "held ?k p s1 \<and>
      (inFlight s ?k = None \<longrightarrow>
         invocations s1 = invocations s @ [\<lparr>config = cfg, rid = nextId s\<rparr>] \<and>
         p1 = Caller (nextId s) \<and> p = nextId s \<and> agree p s1) \<and>
      (inFlight s ?k \<noteq> None \<longrightarrow> invocations s1 = invocations s \<and> p1 = Chain p)" ..
  from hab have h: "held ?k p s1" by (rule conjunct1)
  from hab have a: "inFlight s ?k = None \<longrightarrow>
         invocations s1 = invocations s @ [\<lparr>config = cfg, rid = nextId s\<rparr>] \<and>
         p1 = Caller (nextId s) \<and> p = nextId s \<and> agree p s1"
    by (rule conjunct1 [OF conjunct2])
  from hab have b: "inFlight s ?k \<noteq> None \<longrightarrow> invocations s1 = invocations s \<and> p1 = Chain p"
    by (rule conjunct2 [OF conjunct2])
  \<comment> \<open>the entry is still there at the second call\<close>
  from h assms(8) have "held ?k p (run evs s1)" by (rule held_run)
  then have e: "inFlight (run evs s1) (getDedupeKey cfg') = Some p"
    by (simp add: held_def key)
  from execute_attached [OF assms(4) e] assms(9)
  have 2: "p2 = Chain p" "s2 = run evs s1" by simp_all
  from reg2 e key obtain r where r: "r \<in> active (run evs s1)" "rid r = p"
      "getDedupeKey (config r) = ?k"
    unfolding registered_def by metis
  have 4: "\<exists>r \<in> active s2. getDedupeKey (config r) = ?k \<and>
        p2 = Chain (rid r) \<and> (p1 = Caller (rid r) \<or> p1 = Chain (rid r))"
    using r 2 a b by (cases "inFlight s ?k") auto
  have 5: "settled (run evs' s2) p2 = Some out \<longrightarrow> settled (run evs' s2) p1 = Some out"
  proof (cases "inFlight s ?k")
    case None
    with a have p1: "p1 = Caller p" and ag: "agree p s1" by auto
    from uniq_agree_run [OF u1 ag, of "evs @ evs'"]
    have "agree p (run evs' s2)" by (simp add: run_append 2)
    with p1 2(1) show ?thesis by (auto dest: agree_chain)
  next
    case (Some x)
    with b 2(1) show ?thesis by simp
  qed
  from 2 a b 4 5 show ?thesis by blast
qed

lemmas limiter_eval = run_def execute_def enqueue_def settle_def finallyHandler_def clear_def
  startRequest_def newConcurrencyLimiter_def dedupeEnabled_def getDedupeKey_def
  processQueue.simps Let_def makeConfig_def

text \<open>
  The test "deduplicates identical in-flight requests by default", with an unrelated
  request submitted between the two calls.
\<close>

theorem dedupe_shares_execution_witness:
  "fst (execute (makeConfig ''gt'' [''status''] None) (newConcurrencyLimiter 4 :: string ConcurrencyLimiter))
     = Caller 0 \<and>
   fst (execute (makeConfig ''gt'' [''status''] None)
         (run [Execute (makeConfig ''bd'' [''list''] None)]
           (snd (execute (makeConfig ''gt'' [''status''] None)
              (newConcurrencyLimiter 4 :: string ConcurrencyLimiter)))))
     = Chain 0 \<and>
   map rid (invocations (snd (execute (makeConfig ''gt'' [''status''] None)
         (run [Execute (makeConfig ''bd'' [''list''] None)]
           (snd (execute (makeConfig ''gt'' [''status''] None)
              (newConcurrencyLimiter 4 :: string ConcurrencyLimiter))))))) = [0, 1] \<and>
   settled (run [Settle 0 (Resolved ''shared''), Finally 0]
       (snd (execute (makeConfig ''gt'' [''status''] None)
         (run [Execute (makeConfig ''bd'' [''list''] None)]
           (snd (execute (makeConfig ''gt'' [''status''] None)
              (newConcurrencyLimiter 4 :: string ConcurrencyLimiter))))))) (Chain 0)
     = Some (Resolved ''shared'') \<and>
   settled (run [Settle 0 (Resolved ''shared''), Finally 0]
       (snd (execute (makeConfig ''gt'' [''status''] None)
         (run [Execute (makeConfig ''bd'' [''list''] None)]
           (snd (execute (makeConfig ''gt'' [''status''] None)
              (newConcurrencyLimiter 4 :: string ConcurrencyLimiter))))))) (Caller 0)
     = Some (Resolved ''shared'')"
proof -
  let ?c = "makeConfig ''gt'' [''status''] None"
  let ?mid = "[Execute (makeConfig ''bd'' [''list''] None)] :: string event list"
  let ?after = "[Settle 0 (Resolved ''shared''), Finally 0] :: string event list"
  let ?s = "newConcurrencyLimiter 4 :: string ConcurrencyLimiter"
  let ?s1 = "snd (execute ?c ?s)"
  let ?s2 = "snd (execute ?c (run ?mid ?s1))"
  have a: "?s = run [] (newConcurrencyLimiter 4)" by (simp add: run_def)
  have b: "activeCount ?s < int (maxConcurrency ?s)" by (simp add: new_fields)
  have c: "dedupeEnabled ?c" by (simp add: dedupeEnabled_def makeConfig_def)
  have e1: "execute ?c ?s = (fst (execute ?c ?s), ?s1)" by simp
  have u: "undisturbed (getDedupeKey ?c) ?mid ?s1" by simp
  have e2: "execute ?c (run ?mid ?s1) = (fst (execute ?c (run ?mid ?s1)), ?s2)" by simp
  have n: "inFlight ?s (getDedupeKey ?c) = None" by (simp add: new_fields)
  note t = dedupe_shares_execution [OF a b c c refl refl e1 u e2, of ?after "Resolved ''shared''"]
  from t n have p1: "fst (execute ?c ?s) = Caller (nextId ?s)"
    and p2: "fst (execute ?c (run ?mid ?s1)) = Chain (nextId ?s)"
    by blast+
  from t have eq: "settled (run ?after ?s2) (fst (execute ?c (run ?mid ?s1))) = Some (Resolved ''shared'')
      \<longrightarrow> settled (run ?after ?s2) (fst (execute ?c ?s)) = Some (Resolved ''shared'')"
    by blast
  have z: "nextId ?s = 0" by (simp add: new_fields)
  have v: "settled (run ?after ?s2) (Chain 0) = Some (Resolved ''shared'')"
    by (simp add: limiter_eval)
  have i: "map rid (invocations ?s2) = [0, 1]"
    by (simp add: limiter_eval)
  from p1 p2 z have q1: "fst (execute ?c ?s) = Caller 0" and q2: "fst (execute ?c (run ?mid ?s1)) = Chain 0"
    by simp_all
  from eq v have w: "settled (run ?after ?s2) (Caller 0) = Some (Resolved ''shared'')"
    unfolding q1 q2 by blast
  from q1 q2 i v w show ?thesis by (simp only:)
qed

text \<open>
  Claim C5 as stated fails when the limiter is at its cap. With \<open>maxConcurrency = 1\<close> and
  one request executing, two identical dedupe-enabled requests are both queued, since only
  a request that has been started is in \<^verbatim>\<open>inFlight\<close>: the callers get different promises,
  the executor is called for each, and the two outcomes can differ.
\<close>

theorem dedupe_queued_counterexample:
  "fst (execute (makeConfig ''gt'' [''status''] None)
      (run [Execute (makeConfig ''cmd'' [''1''] (Some False))]
         (newConcurrencyLimiter 1 :: string ConcurrencyLimiter))) = Caller 1 \<and>
   fst (execute (makeConfig ''gt'' [''status''] None)
      (run [Execute (makeConfig ''cmd'' [''1''] (Some False)),
            Execute (makeConfig ''gt'' [''status''] None)]
         (newConcurrencyLimiter 1 :: string ConcurrencyLimiter))) = Caller 2 \<and>
   map config (invocations
      (run [Execute (makeConfig ''cmd'' [''1''] (Some False)),
            Execute (makeConfig ''gt'' [''status''] None),
            Execute (makeConfig ''gt'' [''status''] None),
            Settle 0 (Resolved ''one''), Finally 0, Settle 1 (Resolved ''x''), Finally 1,
            Settle 2 (Resolved ''y''), Finally 2]
         (newConcurrencyLimiter 1 :: string ConcurrencyLimiter)))
     = [makeConfig ''cmd'' [''1''] (Some False), makeConfig ''gt'' [''status''] None,
        makeConfig ''gt'' [''status''] None] \<and>
   settled
      (run [Execute (makeConfig ''cmd'' [''1''] (Some False)),
            Execute (makeConfig ''gt'' [''status''] None),
            Execute (makeConfig ''gt'' [''status''] None),
            Settle 0 (Resolved ''one''), Finally 0, Settle 1 (Resolved ''x''), Finally 1,
            Settle 2 (Resolved ''y''), Finally 2]
         (newConcurrencyLimiter 1 :: string ConcurrencyLimiter)) (Caller 1)
     = Some (Resolved ''x'') \<and>
   settled
      (run [Execute (makeConfig ''cmd'' [''1''] (Some False)),
            Execute (makeConfig ''gt'' [''status''] None),
            Execute (makeConfig ''gt'' [''status''] None),
            Settle 0 (Resolved ''one''), Finally 0, Settle 1 (Resolved ''x''), Finally 1,
            Settle 2 (Resolved ''y''), Finally 2]
         (newConcurrencyLimiter 1 :: string ConcurrencyLimiter)) (Caller 2)
     = Some (Resolved ''y'')"
  by (simp add: limiter_eval)

text \<open>
  The two conditions on the events between the calls are needed as well. The
  \<^verbatim>\<open>finally\<close> callback deletes the key of its request whoever owns the entry: here request
  0 has the same key with dedupe disabled, request 1 registers the entry, the callback of
  request 0 deletes it, and the next identical call starts request 2 while request 1 is
  still executing.
\<close>

lemma dedupe_lost_after_same_key_finally:
  "inFlight (run [Execute (makeConfig ''gt'' [''status''] (Some False)),
                 Execute (makeConfig ''gt'' [''status''] None)]
         (newConcurrencyLimiter 4 :: string ConcurrencyLimiter)) ''gt:status'' = Some 1 \<and>
   inFlight (run [Execute (makeConfig ''gt'' [''status''] (Some False)),
                 Execute (makeConfig ''gt'' [''status''] None),
                 Settle 0 (Resolved ''r''), Finally 0]
         (newConcurrencyLimiter 4 :: string ConcurrencyLimiter)) ''gt:status'' = None \<and>
   map rid (executing (run [Execute (makeConfig ''gt'' [''status''] (Some False)),
                 Execute (makeConfig ''gt'' [''status''] None),
                 Settle 0 (Resolved ''r''), Finally 0]
         (newConcurrencyLimiter 4 :: string ConcurrencyLimiter))) = [1] \<and>
   fst (execute (makeConfig ''gt'' [''status''] None)
      (run [Execute (makeConfig ''gt'' [''status''] (Some False)),
            Execute (makeConfig ''gt'' [''status''] None),
            Settle 0 (Resolved ''r''), Finally 0]
         (newConcurrencyLimiter 4 :: string ConcurrencyLimiter))) = Caller 2"
  by (simp add: limiter_eval)

subsection \<open>The in-flight table\<close>

lemma active_startRequest:
  "active (startRequest request s) = insert request (active s)"
  by (auto simp: active_def startRequest_fields)

lemma processQueue_active_rids:
  "rid ` active (processQueue s) \<subseteq> rid ` active s \<union> rid ` set (queue s)"
proof -
  have "rid ` active (processQueue s) \<union> rid ` set (queue (processQueue s))
      \<subseteq> rid ` active s \<union> rid ` set (queue s)"
  proof (rule processQueue_rule
      [where P = "\<lambda>u. rid ` active u \<union> rid ` set (queue u) \<subseteq> rid ` active s \<union> rid ` set (queue s)"])
    show "rid ` active s \<union> rid ` set (queue s) \<subseteq> rid ` active s \<union> rid ` set (queue s)" ..
  next
    fix u request rest
    assume "rid ` active u \<union> rid ` set (queue u) \<subseteq> rid ` active s \<union> rid ` set (queue s)"
      and "queue u = request # rest"
    then show "rid ` active (startRequest request (u\<lparr>queue := rest\<rparr>))
        \<union> rid ` set (queue (startRequest request (u\<lparr>queue := rest\<rparr>)))
        \<subseteq> rid ` active s \<union> rid ` set (queue s)"
      by (auto simp: active_def startRequest_fields)
  qed
  then show ?thesis by blast
qed

lemma finallyHandler_retires:
  assumes "uniq s" and "i \<in> rid ` fst ` set (finishing s)"
  shows "i \<notin> rid ` active (finallyHandler i s)"
proof (cases rule: finallyHandler_cases [where i = i and s = s])
  case idle
  from idle(2) assms(2) show ?thesis by contradiction
next
  case (finishes f)
  let ?t = "finallyUpdate i f s"
  note m = finishes(1) and fi = finishes(2)
  from assms(1) have d: "distinct (map (rid \<circ> fst) (finishing s))"
    and e: "\<forall>r \<in> set (executing s). \<forall>g \<in> set (finishing s). rid r \<noteq> rid (fst g)"
    and q: "\<forall>g \<in> set (finishing s). \<forall>r \<in> set (queue s). rid (fst g) \<noteq> rid r"
    by (simp_all add: uniq_def)
  from image_remove1_distinct [OF d m] fi
  have 1: "i \<notin> rid ` fst ` set (remove1 f (finishing s))" by (simp add: image_comp)
  have 2: "i \<notin> rid ` set (executing s)"
  proof
    assume "i \<in> rid ` set (executing s)"
    then obtain r where r: "r \<in> set (executing s)" "rid r = i" by auto
    from e r(1) m have "rid r \<noteq> rid (fst f)" by simp
    with r(2) fi show False by simp
  qed
  have 3: "i \<notin> rid ` set (queue s)"
  proof
    assume "i \<in> rid ` set (queue s)"
    then obtain r where r: "r \<in> set (queue s)" "rid r = i" by auto
    from q r(1) m have "rid (fst f) \<noteq> rid r" by simp
    with r(2) fi show False by simp
  qed
  from 1 2 3 have n: "i \<notin> rid ` active ?t \<union> rid ` set (queue ?t)"
    by (simp add: active_def finallyUpdate_fields image_Un)
  have "i \<notin> rid ` active (processQueue ?t)"
  proof
    assume "i \<in> rid ` active (processQueue ?t)"
    from this processQueue_active_rids have "i \<in> rid ` active ?t \<union> rid ` set (queue ?t)"
      by (rule rev_subsetD)
    with n show False by contradiction
  qed
  with finishes(3) show ?thesis by simp
qed

text \<open>
  Claim C8, as amended. In every state the limiter reaches, an entry of \<^verbatim>\<open>inFlight\<close> under
  a key names a request with that key and dedupe enabled that is active: it has been
  started, and its \<^verbatim>\<open>finally\<close> callback has not run yet (it is executing, or its caller
  has been answered and the callback is still pending). Starting a dedupe-enabled request
  writes the entry. The entry then stays, whatever else happens, until \<^verbatim>\<open>clear()\<close> or the
  \<^verbatim>\<open>finally\<close> callback of a request with the same key, provided no dedupe-enabled request
  with that key is waiting in the queue. Once the \<^verbatim>\<open>finally\<close> callback of a request has
  run, no entry names that request; and after \<^verbatim>\<open>clear()\<close> there is no entry at all.
\<close>

theorem inFlight_entry_is_executing:
  "(inFlight (run evs (newConcurrencyLimiter m)) k = Some p \<longrightarrow>
      (\<exists>r \<in> active (run evs (newConcurrencyLimiter m)).
          rid r = p \<and> getDedupeKey (config r) = k \<and> dedupeEnabled (config r))) \<and>
   (dedupeEnabled (config request) \<longrightarrow>
      inFlight (startRequest request s) (getDedupeKey (config request)) = Some (rid request)) \<and>
   (inFlight s k = Some p \<and>
    (\<forall>r \<in> set (queue s). getDedupeKey (config r) = k \<longrightarrow> \<not> dedupeEnabled (config r)) \<and>
    undisturbed k evs' s \<longrightarrow> inFlight (run evs' s) k = Some p) \<and>
   (i \<in> rid ` fst ` set (finishing (run evs (newConcurrencyLimiter m))) \<longrightarrow>
      inFlight (finallyHandler i (run evs (newConcurrencyLimiter m))) k \<noteq> Some i) \<and>
   inFlight (clear s) k = None"
proof -
  let ?S = "run evs (newConcurrencyLimiter m)"
  have reg: "registered ?S" by (rule registered_run [OF registered_new])
  have 1: "inFlight ?S k = Some p \<longrightarrow>
      (\<exists>r \<in> active ?S. rid r = p \<and> getDedupeKey (config r) = k \<and> dedupeEnabled (config r))"
    using reg unfolding registered_def by blast
  have 2: "dedupeEnabled (config request) \<longrightarrow>
      inFlight (startRequest request s) (getDedupeKey (config request)) = Some (rid request)"
    by (simp add: startRequest_fields)
  have 3: "inFlight s k = Some p \<and>
    (\<forall>r \<in> set (queue s). getDedupeKey (config r) = k \<longrightarrow> \<not> dedupeEnabled (config r)) \<and>
    undisturbed k evs' s \<longrightarrow> inFlight (run evs' s) k = Some p"
  proof (intro impI, elim conjE)
    assume "inFlight s k = Some p"
      and "\<forall>r \<in> set (queue s). getDedupeKey (config r) = k \<longrightarrow> \<not> dedupeEnabled (config r)"
      and u: "undisturbed k evs' s"
    then have "held k p s" by (simp add: held_def)
    from held_run [OF this u] show "inFlight (run evs' s) k = Some p" by (simp add: held_def)
  qed
  have 4: "i \<in> rid ` fst ` set (finishing ?S) \<longrightarrow> inFlight (finallyHandler i ?S) k \<noteq> Some i"
  proof (intro impI notI)
    assume f: "i \<in> rid ` fst ` set (finishing ?S)" and e: "inFlight (finallyHandler i ?S) k = Some i"
    have "finallyHandler i ?S = run (evs @ [Finally i]) (newConcurrencyLimiter m)"
      by (simp add: run_def)
    then have "registered (finallyHandler i ?S)"
      by (simp only: registered_run [OF registered_new])
    with e have "i \<in> rid ` active (finallyHandler i ?S)"
      unfolding registered_def by blast
    moreover have "i \<notin> rid ` active (finallyHandler i ?S)"
      by (rule finallyHandler_retires [OF uniq_run [OF uniq_new] f])
    ultimately show False by contradiction
  qed
  have 5: "inFlight (clear s) k = None" by (simp add: clear_fields)
  from 1 2 3 4 5 show ?thesis by (intro conjI)
qed

text \<open>
  The entry of a started request is kept while another request is started and while the
  request's own caller is answered, and it is gone after the request's \<^verbatim>\<open>finally\<close>
  callback.
\<close>

theorem inFlight_entry_is_executing_witness:
  "inFlight (run [Execute (makeConfig ''gt'' [''status''] None)]
       (newConcurrencyLimiter 4 :: string ConcurrencyLimiter)) ''gt:status'' = Some 0 \<and>
   (\<exists>r \<in> active (run [Execute (makeConfig ''gt'' [''status''] None)]
       (newConcurrencyLimiter 4 :: string ConcurrencyLimiter)).
      rid r = 0 \<and> getDedupeKey (config r) = ''gt:status'' \<and> dedupeEnabled (config r)) \<and>
   inFlight (startRequest \<lparr>config = makeConfig ''gt'' [''status''] None, rid = 0\<rparr>
       (run [Execute (makeConfig ''gt'' [''status''] None)]
          (newConcurrencyLimiter 4 :: string ConcurrencyLimiter))) ''gt:status'' = Some 0 \<and>
   inFlight (run [Execute (makeConfig ''bd'' [''list''] None), Settle 0 (Resolved ''r'')]
       (run [Execute (makeConfig ''gt'' [''status''] None)]
          (newConcurrencyLimiter 4 :: string ConcurrencyLimiter))) ''gt:status'' = Some 0 \<and>
   inFlight (finallyHandler 0
       (run [Execute (makeConfig ''gt'' [''status''] None), Settle 0 (Resolved ''r'')]
          (newConcurrencyLimiter 4 :: string ConcurrencyLimiter))) ''gt:status'' \<noteq> Some 0"
proof -
  let ?c = "makeConfig ''gt'' [''status''] None"
  let ?new = "newConcurrencyLimiter 4 :: string ConcurrencyLimiter"
  let ?s = "run [Execute ?c] ?new"
  let ?mid = "[Execute (makeConfig ''bd'' [''list''] None), Settle 0 (Resolved ''r'')] :: string event list"
  let ?r = "\<lparr>config = ?c, rid = 0\<rparr>"
  have e: "inFlight ?s ''gt:status'' = Some 0" by (simp add: limiter_eval)
  have d: "dedupeEnabled (config ?r)" by (simp add: dedupeEnabled_def makeConfig_def)
  have k: "getDedupeKey (config ?r) = ''gt:status''" by (simp add: getDedupeKey_def makeConfig_def)
  have q: "\<forall>r \<in> set (queue ?s). getDedupeKey (config r) = ''gt:status'' \<longrightarrow> \<not> dedupeEnabled (config r)"
    by (simp add: limiter_eval)
  have u: "undisturbed ''gt:status'' ?mid ?s" by (simp add: limiter_eval)
  have f: "0 \<in> rid ` fst ` set (finishing (run [Execute ?c, Settle 0 (Resolved ''r'')] ?new))"
    by (simp add: limiter_eval)
  note t1 = inFlight_entry_is_executing
    [where evs = "[Execute ?c]" and m = 4 and k = "''gt:status''" and p = 0 and request = ?r
       and s = ?s and evs' = ?mid and i = 0]
  note t2 = inFlight_entry_is_executing
    [where evs = "[Execute ?c, Settle 0 (Resolved ''r'')]" and m = 4 and k = "''gt:status''"
       and p = 0 and request = ?r and s = ?s and evs' = ?mid and i = 0]
  from t1 e have 1: "\<exists>r \<in> active ?s.
      rid r = 0 \<and> getDedupeKey (config r) = ''gt:status'' \<and> dedupeEnabled (config r)"
    by blast
  from t1 d have 2: "inFlight (startRequest ?r ?s) (getDedupeKey (config ?r)) = Some (rid ?r)"
    by blast
  from t1 e q u have 3: "inFlight (run ?mid ?s) ''gt:status'' = Some 0" by blast
  from t2 f have 4: "inFlight (finallyHandler 0 (run [Execute ?c, Settle 0 (Resolved ''r'')] ?new))
      ''gt:status'' \<noteq> Some 0"
    by blast
  from 2 have 2: "inFlight (startRequest ?r ?s) ''gt:status'' = Some 0"
    unfolding k by simp
  from e 1 2 3 4 show ?thesis by (intro conjI)
qed

text \<open>
  Claim C8 as stated fails in both directions. An entry is present while the request is
  not executing any more: when the executor's promise fulfils, the caller is answered
  first and the \<^verbatim>\<open>finally\<close> callback that deletes the entry runs later, so a continuation
  of the caller sees the entry of a request that has settled. And a request is executing
  while its entry is absent: \<^verbatim>\<open>clear()\<close> empties \<^verbatim>\<open>inFlight\<close> and leaves the executing
  requests running.
\<close>

theorem inFlight_cleared_counterexample:
  "settled (run [Execute (makeConfig ''gt'' [''status''] None), Settle 0 (Resolved ''r'')]
      (newConcurrencyLimiter 4 :: string ConcurrencyLimiter)) (Caller 0) = Some (Resolved ''r'') \<and>
   executing (run [Execute (makeConfig ''gt'' [''status''] None), Settle 0 (Resolved ''r'')]
      (newConcurrencyLimiter 4 :: string ConcurrencyLimiter)) = [] \<and>
   inFlight (run [Execute (makeConfig ''gt'' [''status''] None), Settle 0 (Resolved ''r'')]
      (newConcurrencyLimiter 4 :: string ConcurrencyLimiter)) ''gt:status'' = Some 0 \<and>
   map rid (executing (run [Execute (makeConfig ''gt'' [''status''] None), Clear]
      (newConcurrencyLimiter 4 :: string ConcurrencyLimiter))) = [0] \<and>
   settled (run [Execute (makeConfig ''gt'' [''status''] None), Clear]
      (newConcurrencyLimiter 4 :: string ConcurrencyLimiter)) (Caller 0) = None \<and>
   inFlight (run [Execute (makeConfig ''gt'' [''status''] None), Clear]
      (newConcurrencyLimiter 4 :: string ConcurrencyLimiter)) ''gt:status'' = None"
  by (simp add: limiter_eval)

text \<open>
  The condition on the queue is needed: a dedupe-enabled request that was queued at the cap
  overwrites the entry of its key when it is started. With two slots taken, two identical
  requests are queued; the first is started when a slot frees and registers the entry, and
  the second replaces that entry while the first is still executing.
\<close>

lemma inFlight_overwritten_by_queued_request:
  "inFlight (run [Execute (makeConfig ''a'' [] None), Execute (makeConfig ''b'' [] None),
                 Execute (makeConfig ''gt'' [''status''] None),
                 Execute (makeConfig ''gt'' [''status''] None),
                 Settle 0 (Resolved ''r''), Finally 0]
         (newConcurrencyLimiter 2 :: string ConcurrencyLimiter)) ''gt:status'' = Some 2 \<and>
   inFlight (run [Execute (makeConfig ''a'' [] None), Execute (makeConfig ''b'' [] None),
                 Execute (makeConfig ''gt'' [''status''] None),
                 Execute (makeConfig ''gt'' [''status''] None),
                 Settle 0 (Resolved ''r''), Finally 0, Settle 1 (Resolved ''r''), Finally 1]
         (newConcurrencyLimiter 2 :: string ConcurrencyLimiter)) ''gt:status'' = Some 3 \<and>
   map rid (executing (run [Execute (makeConfig ''a'' [] None), Execute (makeConfig ''b'' [] None),
                 Execute (makeConfig ''gt'' [''status''] None),
                 Execute (makeConfig ''gt'' [''status''] None),
                 Settle 0 (Resolved ''r''), Finally 0, Settle 1 (Resolved ''r''), Finally 1]
         (newConcurrencyLimiter 2 :: string ConcurrencyLimiter))) = [2, 3]"
  by (simp add: limiter_eval)

subsection \<open>The dedupe key\<close>

text \<open>
  Claim C10. The dedupe key joins command and args with colons, so for every command the
  args \<^verbatim>\<open>["a:b"]\<close> and \<^verbatim>\<open>["a", "b"]\<close> give the same key although the argument lists differ.
  On a new limiter with at least one slot the second of two such dedupe-enabled requests
  is handed the chain promise of the first, the executor is called for the first config
  only, and the outcome of that call settles both promises: the first caller's when the
  executor's promise settles, the second caller's after the \<^verbatim>\<open>finally\<close> callback.
\<close>

theorem dedupe_key_not_injective:
  "args (makeConfig c [''a:b''] None) \<noteq> args (makeConfig c [''a'', ''b''] None) \<and>
   getDedupeKey (makeConfig c [''a:b''] None) = getDedupeKey (makeConfig c [''a'', ''b''] None) \<and>
   fst (execute (makeConfig c [''a:b''] None) (newConcurrencyLimiter (Suc m))) = Caller 0 \<and>
   fst (execute (makeConfig c [''a'', ''b''] None)
         (snd (execute (makeConfig c [''a:b''] None) (newConcurrencyLimiter (Suc m))))) = Chain 0 \<and>
   invocations (snd (execute (makeConfig c [''a'', ''b''] None)
         (snd (execute (makeConfig c [''a:b''] None) (newConcurrencyLimiter (Suc m))))))
     = [\<lparr>config = makeConfig c [''a:b''] None, rid = 0\<rparr>] \<and>
   settled (settle 0 out (snd (execute (makeConfig c [''a'', ''b''] None)
         (snd (execute (makeConfig c [''a:b''] None) (newConcurrencyLimiter (Suc m)))))))
       (Caller 0) = Some out \<and>
   settled (finallyHandler 0 (settle 0 out (snd (execute (makeConfig c [''a'', ''b''] None)
         (snd (execute (makeConfig c [''a:b''] None) (newConcurrencyLimiter (Suc m))))))))
       (Caller 0) = Some out \<and>
   settled (finallyHandler 0 (settle 0 out (snd (execute (makeConfig c [''a'', ''b''] None)
         (snd (execute (makeConfig c [''a:b''] None) (newConcurrencyLimiter (Suc m))))))))
       (Chain 0) = Some out"
  by (simp add: limiter_eval)

subsection \<open>From the executor's outcome to both promises\<close>






section \<open>Properties of the stale-while-revalidate cache\<close>

lemma callFetcher_fields:
  "cache (callFetcher key ttlMs bg s) = cache s"
  "pendingRevalidations (callFetcher key ttlMs bg s) = pendingRevalidations s"
  "running (callFetcher key ttlMs bg s) =
     running s @ [\<lparr>fid = nextFetch s, fkey = key, fttl = ttlMs, background = bg\<rparr>]"
  "fetchLog (callFetcher key ttlMs bg s) =
     fetchLog s @ [\<lparr>fid = nextFetch s, fkey = key, fttl = ttlMs, background = bg\<rparr>]"
  "nextFetch (callFetcher key ttlMs bg s) = nextFetch s + 1"
  by (simp_all add: callFetcher_def Let_def)

lemma length_filter_remove1:
  "x \<in> set xs \<Longrightarrow>
   length (filter P (remove1 x xs)) + (if P x then 1 else 0) = length (filter P xs)"
  by (induction xs) auto

lemma find_fid_mem: "find (\<lambda>f. fid f = i) xs = Some f \<Longrightarrow> f \<in> set xs"
  by (auto simp: find_Some_iff)

text \<open>
  The marker in \<open>pendingRevalidations\<close> is present exactly when one revalidation of the key
  is in flight, and then there is exactly one.
\<close>

definition marked :: "'a SWRCache \<Rightarrow> bool" where
  "marked s =
     (\<forall>k. revalidating k s = (if pendingRevalidations s k = None then 0 else 1))"

lemma marked_get: "marked s \<Longrightarrow> marked (snd (get key ttlMs now s))"
proof (cases "cache s key")
  case None
  assume "marked s"
  then show ?thesis using None
    by (simp add: get_def marked_def revalidating_def callFetcher_fields)
next
  case (Some entry)
  assume m: "marked s"
  show ?thesis
  proof (cases "now - fetchedAt entry < ttl entry \<or> pendingRevalidations s key \<noteq> None")
    case True
    with m Some show ?thesis by (auto simp: get_def)
  next
    case False
    with m Some show ?thesis
      by (simp add: get_def marked_def revalidating_def callFetcher_fields)
  qed
qed

lemma marked_settled:
  assumes "marked s" and "f \<in> set (running s)"
  shows "\<forall>k. length (filter (\<lambda>f. background f \<and> fkey f = k) (remove1 f (running s))) =
     (if (if background f then (pendingRevalidations s)(fkey f := None) else pendingRevalidations s) k
         = None then 0 else 1)"
proof
  fix k
  from assms(1) have c: "length (filter (\<lambda>f. background f \<and> fkey f = k) (running s)) =
      (if pendingRevalidations s k = None then 0 else 1)"
    by (simp add: marked_def revalidating_def)
  show "length (filter (\<lambda>f. background f \<and> fkey f = k) (remove1 f (running s))) =
     (if (if background f then (pendingRevalidations s)(fkey f := None) else pendingRevalidations s) k
         = None then 0 else 1)"
    using c length_filter_remove1 [OF assms(2), of "\<lambda>f. background f \<and> fkey f = k"]
    by (auto split: if_splits)
qed

lemma marked_fetchResolved: "marked s \<Longrightarrow> marked (fetchResolved i v now s)"
proof (cases "find (\<lambda>f. fid f = i) (running s)")
  case None
  assume "marked s"
  then show ?thesis using None by (simp add: fetchResolved_def)
next
  case (Some f)
  assume "marked s"
  from marked_settled [OF this find_fid_mem [OF Some]] show ?thesis
    using Some by (simp add: fetchResolved_def marked_def revalidating_def Let_def)
qed

lemma marked_fetchRejected: "marked s \<Longrightarrow> marked (fetchRejected i s)"
proof (cases "find (\<lambda>f. fid f = i) (running s)")
  case None
  assume "marked s"
  then show ?thesis using None by (simp add: fetchRejected_def)
next
  case (Some f)
  assume "marked s"
  from marked_settled [OF this find_fid_mem [OF Some]] show ?thesis
    using Some by (simp add: fetchRejected_def marked_def revalidating_def Let_def)
qed

lemma marked_invalidate: "marked s \<Longrightarrow> marked (invalidate key s)"
  by (simp add: marked_def revalidating_def invalidate_def)

lemma marked_clearCache:
  assumes "filter background (running s) = []"
  shows "marked (clearCache s)"
proof -
  from assms have "\<And>k. filter (\<lambda>f. background f \<and> fkey f = k) (running s) = []"
    by (auto simp: filter_empty_conv)
  then show ?thesis by (simp add: marked_def revalidating_def clearCache_def)
qed

lemma marked_step:
  "marked s \<Longrightarrow> e \<noteq> ClearCache \<or> filter background (running s) = [] \<Longrightarrow>
   marked (cacheStep e s)"
  by (cases e)
     (simp_all add: marked_get marked_fetchResolved marked_fetchRejected marked_invalidate
        marked_clearCache)

lemma marked_run: "marked s \<Longrightarrow> quietClears evs s \<Longrightarrow> marked (runCache evs s)"
  unfolding runCache_def
proof (induction evs arbitrary: s)
  case Nil
  then show ?case by simp
next
  case (Cons e evs)
  from Cons.prems have q: "e \<noteq> ClearCache \<or> filter background (running s) = []"
    and n: "quietClears evs (cacheStep e s)" by simp_all
  from Cons.prems(1) q have "marked (cacheStep e s)" by (rule marked_step)
  from Cons.IH [OF this n] show ?case by simp
qed

lemma marked_new: "marked newSWRCache"
  by (simp add: marked_def revalidating_def newSWRCache_def)

lemma stale_get_result:
  assumes "cache s key = Some entry" and "ttl entry \<le> now - fetchedAt entry"
  shows "fst (get key ttlMs now s) = Value (data entry)"
    and "cache (snd (get key ttlMs now s)) = cache s"
  using assms by (simp_all add: get_def callFetcher_fields)

lemma marked_at:
  assumes "marked s"
  shows "pendingRevalidations s key = None \<Longrightarrow> revalidating key s = 0"
    and "pendingRevalidations s key \<noteq> None \<Longrightarrow> revalidating key s = 1"
proof -
  from assms have e: "revalidating key s = (if pendingRevalidations s key = None then 0 else 1)"
    unfolding marked_def by (rule spec)
  { assume "pendingRevalidations s key = None"
    with e show "revalidating key s = 0" by simp }
  { assume "pendingRevalidations s key \<noteq> None"
    with e show "revalidating key s = 1" by simp }
qed

lemma stale_get_running:
  assumes "marked s" and "cache s key = Some entry" and "ttl entry \<le> now - fetchedAt entry"
    and "revalidating key s = 1"
  shows "snd (get key ttlMs now s) = s"
proof -
  from marked_at(1) [OF assms(1), of key] assms(4) have "pendingRevalidations s key \<noteq> None"
    by (cases "pendingRevalidations s key") simp_all
  with assms(2,3) show ?thesis by (auto simp: get_def)
qed

lemma stale_get_idle:
  assumes "marked s" and "cache s key = Some entry" and "ttl entry \<le> now - fetchedAt entry"
    and "revalidating key s = 0"
  shows "fetchLog (snd (get key ttlMs now s)) =
           fetchLog s @ [\<lparr>fid = nextFetch s, fkey = key, fttl = ttlMs, background = True\<rparr>]"
    and "revalidating key (snd (get key ttlMs now s)) = 1"
proof -
  from marked_at(2) [OF assms(1), of key] assms(4) have "pendingRevalidations s key = None"
    by (cases "pendingRevalidations s key") simp_all
  with assms(2,3,4)
  show "fetchLog (snd (get key ttlMs now s)) =
           fetchLog s @ [\<lparr>fid = nextFetch s, fkey = key, fttl = ttlMs, background = True\<rparr>]"
    and "revalidating key (snd (get key ttlMs now s)) = 1"
    by (simp_all add: get_def callFetcher_fields revalidating_def)
qed

lemma marked_le: "marked s \<Longrightarrow> revalidating key s = 0 \<or> revalidating key s = 1"
  using marked_at [of s key] by (cases "pendingRevalidations s key") simp_all

lemma staleReads_running:
  assumes "marked s" and "cache s key = Some entry" and "revalidating key s = 1"
    and "\<forall>c \<in> set reads. ttl entry \<le> snd c - fetchedAt entry"
  shows "runCache (staleReads key reads) s = s"
  using assms(4)
proof (induction reads)
  case Nil
  show ?case by (simp add: runCache_def staleReads_def)
next
  case (Cons c reads)
  then have "ttl entry \<le> snd c - fetchedAt entry" by simp
  from stale_get_running [OF assms(1,2) this assms(3)]
  have "cacheStep (Get key (fst c) (snd c)) s = s" by simp
  with Cons show ?case by (simp add: runCache_def staleReads_def)
qed

lemma staleReads_once:
  assumes "marked s" and "cache s key = Some entry"
    and "\<forall>c \<in> set reads. ttl entry \<le> snd c - fetchedAt entry"
  shows "length (fetchLog (runCache (staleReads key reads) s)) \<le> length (fetchLog s) + 1"
proof (cases reads)
  case Nil
  then show ?thesis by (simp add: runCache_def staleReads_def)
next
  case (Cons c rest)
  let ?t = "snd (get key (fst c) (snd c) s)"
  from assms(3) Cons have st: "ttl entry \<le> snd c - fetchedAt entry"
    and rest: "\<forall>c \<in> set rest. ttl entry \<le> snd c - fetchedAt entry" by simp_all
  have m: "marked ?t" using assms(1) by (rule marked_get)
  have c: "cache ?t key = Some entry"
    using stale_get_result(2) [OF assms(2) st] assms(2) by simp
  have one: "revalidating key ?t = 1" and len: "length (fetchLog ?t) \<le> length (fetchLog s) + 1"
  proof -
    from marked_le [OF assms(1), of key]
    have "revalidating key ?t = 1 \<and> length (fetchLog ?t) \<le> length (fetchLog s) + 1"
    proof
      assume z: "revalidating key s = 0"
      from stale_get_idle [OF assms(1,2) st z] show ?thesis by simp
    next
      assume o: "revalidating key s = 1"
      from stale_get_running [OF assms(1,2) st o] o show ?thesis by simp
    qed
    then show "revalidating key ?t = 1" and "length (fetchLog ?t) \<le> length (fetchLog s) + 1"
      by simp_all
  qed
  have "runCache (staleReads key reads) s = runCache (staleReads key rest) ?t"
    using Cons by (simp add: runCache_def staleReads_def)
  also have "\<dots> = ?t" using m c one rest by (rule staleReads_running)
  finally show ?thesis using len by simp
qed

text \<open>
  Claim C9, as amended. Take a cache reached by any sequence of \<^verbatim>\<open>get\<close> calls, fetcher
  settlements, \<^verbatim>\<open>invalidate\<close> calls and \<^verbatim>\<open>clear\<close> calls in which \<^verbatim>\<open>clear()\<close> is never called
  while a background revalidation is in flight, and a key whose entry is expired (age at
  least its ttl). Then
  \<^verbatim>\<open>get\<close> returns the cached value at once and leaves the entry as it is; at most one
  background revalidation of the key is in flight before the call and exactly one after
  it; when one is in flight the call changes nothing, so the fetcher is not called; when
  none is in flight the call makes the one fetcher call that starts it; and any number of
  stale reads of the key made one after the other add at most one fetcher call in total.
\<close>

theorem stale_get_revalidates_once:
  assumes "quietClears evs newSWRCache" and "s = runCache evs newSWRCache"
    and "cache s key = Some entry" and "ttl entry \<le> now - fetchedAt entry"
    and "\<forall>c \<in> set reads. ttl entry \<le> snd c - fetchedAt entry"
  shows "fst (get key ttlMs now s) = Value (data entry) \<and>
         cache (snd (get key ttlMs now s)) = cache s \<and>
         revalidating key s \<le> 1 \<and>
         revalidating key (snd (get key ttlMs now s)) = 1 \<and>
         (revalidating key s = 1 \<longrightarrow> snd (get key ttlMs now s) = s) \<and>
         (revalidating key s = 0 \<longrightarrow>
            fetchLog (snd (get key ttlMs now s)) =
              fetchLog s @ [\<lparr>fid = nextFetch s, fkey = key, fttl = ttlMs, background = True\<rparr>]) \<and>
         length (fetchLog (runCache (staleReads key reads) s)) \<le> length (fetchLog s) + 1"
proof -
  have m: "marked s" unfolding assms(2) using marked_new assms(1) by (rule marked_run)
  note r = stale_get_result [OF assms(3,4), of ttlMs]
  have 3: "revalidating key s \<le> 1" using marked_le [OF m, of key] by auto
  have 5: "revalidating key s = 1 \<longrightarrow> snd (get key ttlMs now s) = s"
    using stale_get_running [OF m assms(3,4)] by blast
  have 6: "revalidating key s = 0 \<longrightarrow>
            fetchLog (snd (get key ttlMs now s)) =
              fetchLog s @ [\<lparr>fid = nextFetch s, fkey = key, fttl = ttlMs, background = True\<rparr>]"
    using stale_get_idle(1) [OF m assms(3,4)] by blast
  have 4: "revalidating key (snd (get key ttlMs now s)) = 1"
    using marked_le [OF m, of key] stale_get_idle(2) [OF m assms(3,4), of ttlMs] 5 by auto
  have 7: "length (fetchLog (runCache (staleReads key reads) s)) \<le> length (fetchLog s) + 1"
    using m assms(3,5) by (rule staleReads_once)
  from r 3 4 5 6 7 show ?thesis by blast
qed

lemmas cache_eval = runCache_def get_def callFetcher_def fetchResolved_def fetchRejected_def
  invalidate_def clearCache_def newSWRCache_def staleReads_def revalidating_def Let_def

text \<open>
  The test "deduplicates concurrent revalidations": an entry fetched at time 1000 with ttl
  5000, then two stale reads at time 7000.
\<close>

theorem stale_get_revalidates_once_witness:
  "fst (get ''key'' 5000 7000
      (runCache [Get ''key'' 5000 1000, FetchResolved 0 ''initial'' 1000] newSWRCache))
     = Value ''initial'' \<and>
   length (fetchLog (runCache [Get ''key'' 5000 1000, FetchResolved 0 ''initial'' 1000]
      newSWRCache)) = 1 \<and>
   length (fetchLog (runCache (staleReads ''key'' [(5000, 7000), (5000, 7000)])
      (runCache [Get ''key'' 5000 1000, FetchResolved 0 ''initial'' 1000] newSWRCache))) \<le> 2 \<and>
   revalidating ''key'' (snd (get ''key'' 5000 7000
      (runCache [Get ''key'' 5000 1000, FetchResolved 0 ''initial'' 1000] newSWRCache))) = 1 \<and>
   map fid (fetchLog (snd (get ''key'' 5000 7000
      (runCache [Get ''key'' 5000 1000, FetchResolved 0 ''initial'' 1000] newSWRCache))))
     = [0, 1]"
proof -
  let ?evs = "[Get ''key'' 5000 1000, FetchResolved 0 ''initial'' 1000] :: string cacheEvent list"
  let ?s = "runCache ?evs newSWRCache"
  let ?e = "\<lparr>data = ''initial'', fetchedAt = 1000, ttl = 5000\<rparr>"
  have a: "quietClears ?evs newSWRCache" by simp
  have c: "cache ?s ''key'' = Some ?e" by (simp add: cache_eval)
  have st: "ttl ?e \<le> 7000 - fetchedAt ?e" by simp
  have al: "\<forall>c \<in> set [(5000, 7000), (5000, 7000)]. ttl ?e \<le> snd c - fetchedAt ?e" by simp
  have l: "length (fetchLog ?s) = 1" by (simp add: cache_eval)
  note t = stale_get_revalidates_once [OF a refl c st al, of 5000]
  from t have 1: "fst (get ''key'' 5000 7000 ?s) = Value (data ?e)" by blast
  from t have 2: "length (fetchLog (runCache (staleReads ''key'' [(5000, 7000), (5000, 7000)]) ?s))
      \<le> length (fetchLog ?s) + 1" by blast
  from t have 3: "revalidating ''key'' (snd (get ''key'' 5000 7000 ?s)) = 1" by blast
  have z: "revalidating ''key'' ?s = 0" by (simp add: cache_eval)
  have f: "map fid (fetchLog ?s) = [0]" "nextFetch ?s = 1" by (simp_all add: cache_eval)
  from t z have "fetchLog (snd (get ''key'' 5000 7000 ?s)) =
      fetchLog ?s @ [\<lparr>fid = nextFetch ?s, fkey = ''key'', fttl = 5000, background = True\<rparr>]"
    by blast
  then have "map fid (fetchLog (snd (get ''key'' 5000 7000 ?s))) = map fid (fetchLog ?s) @ [nextFetch ?s]"
    by simp
  then have 4: "map fid (fetchLog (snd (get ''key'' 5000 7000 ?s))) = [0, 1]"
    by (simp only: f append_Cons append_Nil One_nat_def)
  from 1 2 3 4 l show ?thesis by simp
qed

text \<open>
  Claim C9 as stated fails after \<^verbatim>\<open>clear()\<close>: it empties \<open>pendingRevalidations\<close> without
  cancelling a running revalidation. Here the entry fetched at time 1000 is stale at 7000
  and the read starts revalidation 1; the cache is cleared; a miss at 7100 fetches again
  (fetch 2, resolved at 7200); the read at 13000 finds that entry stale and no marker,
  and calls the fetcher (fetch 3) although revalidation 1 is still running: two
  background revalidations of the key are in flight.
\<close>

theorem stale_get_after_clear_counterexample:
  "revalidating ''key''
     (runCache [Get ''key'' 5000 1000, FetchResolved 0 ''v1'' 1000, Get ''key'' 5000 7000,
                ClearCache, Get ''key'' 5000 7100, FetchResolved 2 ''v2'' 7200] newSWRCache) = 1 \<and>
   fst (get ''key'' 5000 13000
     (runCache [Get ''key'' 5000 1000, FetchResolved 0 ''v1'' 1000, Get ''key'' 5000 7000,
                ClearCache, Get ''key'' 5000 7100, FetchResolved 2 ''v2'' 7200] newSWRCache))
     = Value ''v2'' \<and>
   map fid (fetchLog (snd (get ''key'' 5000 13000
     (runCache [Get ''key'' 5000 1000, FetchResolved 0 ''v1'' 1000, Get ''key'' 5000 7000,
                ClearCache, Get ''key'' 5000 7100, FetchResolved 2 ''v2'' 7200] newSWRCache))))
     = [0, 1, 2, 3] \<and>
   revalidating ''key'' (snd (get ''key'' 5000 13000
     (runCache [Get ''key'' 5000 1000, FetchResolved 0 ''v1'' 1000, Get ''key'' 5000 7000,
                ClearCache, Get ''key'' 5000 7100, FetchResolved 2 ''v2'' 7200] newSWRCache)))
     = 2"
  by (simp add: cache_eval)

section \<open>Properties of the process supervisor\<close>

subsection \<open>What the operations change\<close>

lemma executeCommand_fields:
  "limiter (executeCommand pf cfg i now sv) = limiter sv"
  "destroyed (executeCommand pf cfg i now sv) = destroyed sv"
  "circuitBreaker (executeCommand pf cfg i now sv) = circuitBreaker sv"
  by (simp_all add: executeCommand_def Let_def split: option.splits)



lemma fold_executeCommand:
  "limiter (fold (\<lambda>r. executeCommand pf (config r) (rid r) now) rs sv) = limiter sv \<and>
   destroyed (fold (\<lambda>r. executeCommand pf (config r) (rid r) now) rs sv) = destroyed sv \<and>
   circuitBreaker (fold (\<lambda>r. executeCommand pf (config r) (rid r) now) rs sv) = circuitBreaker sv"
  by (induction rs arbitrary: sv) (simp_all add: executeCommand_fields)





lemma spawnStarted_fields:
  "limiter (spawnStarted pf before now sv) = limiter sv"
  "destroyed (spawnStarted pf before now sv) = destroyed sv"
  "circuitBreaker (spawnStarted pf before now sv) = circuitBreaker sv"
  by (simp_all add: spawnStarted_def fold_executeCommand)



text \<open>
  A step of the supervisor is of one of five kinds, by what it does to the limiter, the
  latch and the records of spawned and failed calls.
\<close>

lemma execFileCallback_cases:
  obtains (unknown) "execFileCallback pf i err stdout stderr now sv = sv"
    and "closures sv i = None"
  | (answered) envelope where
      "limiter (execFileCallback pf i err stdout stderr now sv) =
         settle i (Resolved envelope) (limiter sv)"
      and "destroyed (execFileCallback pf i err stdout stderr now sv) = destroyed sv"
      and "thrown (execFileCallback pf i err stdout stderr now sv) = thrown sv"
      and "closures (execFileCallback pf i err stdout stderr now sv) = closures sv"
      and "success envelope = (err = None)"
proof (cases "closures sv i")
  case None
  then show ?thesis using unknown by (simp add: execFileCallback_def)
next
  case (Some c)
  show ?thesis
  proof (cases err)
    case None
    with Some show ?thesis
      by (intro answered [of "\<lparr>success = True,
            resultData = Some (case jsonParse pf stdout of Some v \<Rightarrow> Json v | None \<Rightarrow> Text stdout),
            error = None, exitCode = 0, duration = now - startTime c,
            resultCommand = commandText c\<rparr>"])
         (simp_all add: execFileCallback_def Let_def resolveWith_def)
  next
    case (Some e)
    with \<open>closures sv i = Some c\<close> show ?thesis
      by (intro answered [of "\<lparr>success = False, resultData = None,
            error = Some (if killed e then ''Process was killed''
               else if killed e \<or> includesStr (message e) ''ETIMEDOUT''
               then ''Command timed out after '' @ numberToString pf (effectiveTimeout c) @ ''ms''
               else if stderr \<noteq> [] then stderr else message e),
            exitCode = (case code e of Some n \<Rightarrow> n | None \<Rightarrow> - 1),
            duration = now - startTime c, resultCommand = commandText c\<rparr>"])
         (simp_all add: execFileCallback_def Let_def resolveWith_def)
  qed
qed

lemma childError_cases:
  obtains (unknown) "childError i msg now sv = sv" and "closures sv i = None"
  | (answered) envelope where
      "limiter (childError i msg now sv) = settle i (Resolved envelope) (limiter sv)"
      and "destroyed (childError i msg now sv) = destroyed sv"
      and "thrown (childError i msg now sv) = thrown sv"
      and "closures (childError i msg now sv) = closures sv"
      and "\<not> success envelope"
proof (cases "closures sv i")
  case None
  then show ?thesis using unknown by (simp add: childError_def)
next
  case (Some c)
  then show ?thesis
    by (intro answered [of "\<lparr>success = False, resultData = None,
          error = Some (''Failed to spawn process: '' @ msg), exitCode = - 1,
          duration = now - startTime c, resultCommand = commandText c\<rparr>"])
       (simp_all add: childError_def Let_def resolveWith_def)
qed

lemma supervisorExecute_destroyed:
  "destroyed sv \<Longrightarrow>
   supervisorExecute pf cfg now sv =
     (Returned (failResult ''Process supervisor has been destroyed'' cfg), sv)"
  by (simp add: supervisorExecute_def)

lemma supervisorExecute_cases:
  obtains (refused) r where "supervisorExecute pf cfg now sv = (Returned r, sv)" and "destroyed sv"
  | (breaker) r b where
      "supervisorExecute pf cfg now sv = (Returned r, sv\<lparr>circuitBreaker := b\<rparr>)"
      and "\<not> destroyed sv"
  | (delegated) p b where "fst (supervisorExecute pf cfg now sv) = Pending p"
      and "snd (supervisorExecute pf cfg now sv) =
         spawnStarted pf (limiter sv) now
           (sv\<lparr>circuitBreaker := b, limiter := snd (execute cfg (limiter sv))\<rparr>)"
proof (cases "destroyed sv")
  case True
  then show ?thesis using refused by (simp add: supervisorExecute_def)
next
  case False
  show ?thesis
  proof (cases "fst (canExecute now (circuitBreaker sv))")
    case True
    with False show ?thesis
      by (intro delegated [of "fst (execute cfg (limiter sv))" "snd (canExecute now (circuitBreaker sv))"])
         (simp_all add: supervisorExecute_def Let_def split_beta)
  next
    case f: False
    with False show ?thesis
      by (intro breaker) (simp_all add: supervisorExecute_def Let_def split_beta)
  qed
qed

lemma supervisorStep_cases:
  obtains (quiet) "limiter (supervisorStep pf e sv) = limiter sv"
      and "destroyed (supervisorStep pf e sv) = destroyed sv"
      and "thrown (supervisorStep pf e sv) = thrown sv"
      and "closures (supervisorStep pf e sv) = closures sv"
  | (resolved) i envelope where
      "limiter (supervisorStep pf e sv) = settle i (Resolved envelope) (limiter sv)"
      and "destroyed (supervisorStep pf e sv) = destroyed sv"
      and "thrown (supervisorStep pf e sv) = thrown sv"
      and "closures (supervisorStep pf e sv) = closures sv"
  | (rejected) i msg where "thrown sv i = Some msg"
      and "limiter (supervisorStep pf e sv) = settle i (Rejected msg) (limiter sv)"
      and "destroyed (supervisorStep pf e sv) = destroyed sv"
      and "thrown (supervisorStep pf e sv) = thrown sv"
      and "closures (supervisorStep pf e sv) = closures sv"
  | (pumped) le sv0 now where "(\<exists>cfg. le = Execute cfg) \<or> (\<exists>i. le = Finally i)"
      and "supervisorStep pf e sv = spawnStarted pf (limiter sv) now sv0"
      and "limiter sv0 = step le (limiter sv)"
      and "destroyed sv0 = destroyed sv"
      and "thrown sv0 = thrown sv"
      and "closures sv0 = closures sv"
  | (destroyed) "supervisorStep pf e sv = destroy sv"
proof (cases e)
  case (Call cfg now)
  show ?thesis
  proof (cases rule: supervisorExecute_cases [of pf cfg now sv])
    case (refused r)
    with Call show ?thesis by (intro quiet) simp_all
  next
    case (breaker r b)
    with Call show ?thesis by (intro quiet) simp_all
  next
    case (delegated p b)
    with Call show ?thesis
      by (intro pumped [of "Execute cfg" now
            "sv\<lparr>circuitBreaker := b, limiter := snd (execute cfg (limiter sv))\<rparr>"]) simp_all
  qed
next
  case (ExecFileDone i err stdout stderr now)
  show ?thesis
  proof (cases rule: execFileCallback_cases [of pf i err stdout stderr now sv])
    case unknown
    with ExecFileDone show ?thesis by (intro quiet) simp_all
  next
    case (answered envelope)
    with ExecFileDone show ?thesis by (intro resolved [of i envelope]) simp_all
  qed
next
  case (ChildError i msg now)
  show ?thesis
  proof (cases rule: childError_cases [of i msg now sv])
    case unknown
    with ChildError show ?thesis by (intro quiet) simp_all
  next
    case (answered envelope)
    with ChildError show ?thesis by (intro resolved [of i envelope]) simp_all
  qed
next
  case (RejectThrown i)
  show ?thesis
  proof (cases "thrown sv i")
    case None
    with RejectThrown show ?thesis by (intro quiet) (simp_all add: rejectThrown_def)
  next
    case (Some msg)
    with RejectThrown show ?thesis by (intro rejected [of i msg]) (simp_all add: rejectThrown_def)
  qed
next
  case (RunFinally i now)
  then show ?thesis
    by (intro pumped [of "Finally i" now "sv\<lparr>limiter := finallyHandler i (limiter sv)\<rparr>"])
       (simp_all add: runFinally_def)
next
  case ResetBreaker
  then show ?thesis by (intro quiet) (simp_all add: resetCircuitBreaker_def)
next
  case Destroy
  then show ?thesis by (intro destroyed) simp
qed

subsection \<open>The latch\<close>

lemma destroyed_step: "destroyed sv \<Longrightarrow> destroyed (supervisorStep pf e sv)"
  by (cases rule: supervisorStep_cases [of pf e sv])
     (simp_all add: spawnStarted_fields destroy_def)

lemma destroyed_run: "destroyed sv \<Longrightarrow> destroyed (runSupervisor pf evs sv)"
  unfolding runSupervisor_def by (induction evs arbitrary: sv) (simp_all add: destroyed_step)

lemma calls_destroyed: "destroyed sv \<Longrightarrow> runSupervisor pf (calls cs) sv = sv"
  by (induction cs) (simp_all add: runSupervisor_def calls_def supervisorExecute_destroyed)

text \<open>
  Claim C2. After \<^verbatim>\<open>destroy()\<close>, whatever events follow, every call of \<^verbatim>\<open>execute\<close> returns
  at once the failure envelope with the "destroyed" message, \<open>success = false\<close>,
  \<open>exitCode = -1\<close> and \<open>duration = 0\<close>, and leaves the whole supervisor, in particular the
  circuit breaker and the limiter, exactly as it was; so does any number of such calls.
\<close>

theorem destroyed_latch:
  "fst (supervisorExecute pf cfg now (runSupervisor pf evs (destroy sv))) =
     Returned (failResult ''Process supervisor has been destroyed'' cfg) \<and>
   success (failResult ''Process supervisor has been destroyed'' cfg) = False \<and>
   exitCode (failResult ''Process supervisor has been destroyed'' cfg) = - 1 \<and>
   duration (failResult ''Process supervisor has been destroyed'' cfg) = 0 \<and>
   snd (supervisorExecute pf cfg now (runSupervisor pf evs (destroy sv))) =
     runSupervisor pf evs (destroy sv) \<and>
   circuitBreaker (snd (supervisorExecute pf cfg now (runSupervisor pf evs (destroy sv)))) =
     circuitBreaker (runSupervisor pf evs (destroy sv)) \<and>
   limiter (snd (supervisorExecute pf cfg now (runSupervisor pf evs (destroy sv)))) =
     limiter (runSupervisor pf evs (destroy sv)) \<and>
   runSupervisor pf (calls cs) (runSupervisor pf evs (destroy sv)) =
     runSupervisor pf evs (destroy sv)"
proof -
  have "destroyed (destroy sv)" by (simp add: destroy_def)
  then have d: "destroyed (runSupervisor pf evs (destroy sv))" by (rule destroyed_run)
  show ?thesis
    by (simp add: supervisorExecute_destroyed [OF d] calls_destroyed [OF d] failResult_def)
qed

subsection \<open>How promises settle\<close>





























end
